theory Spec2Isabelle
  imports Complex_Main "HOL-Library.Multiset"
begin

section \<open>Domain model (main.py, lines 7-69)\<close>

text \<open>
  Python ints are integers. Python floats are IEEE binary64 numbers, and this theory
  treats them in two ways. In the partitioner the float operations of the runtime
  (conversion, division, sum, addition, comparison, \<open>math.pow\<close>) are a parameter, so what
  is proved there holds whatever these operations compute; only the places where Python
  raises are fixed. In the simulation a float is the real number it denotes and every
  float operation rounds its exact result to the nearest double (\<open>fl\<close>); numbers beyond
  the exponent range of doubles, and the \<open>OverflowError\<close> of converting an int of that
  size, are outside the simulation's model. The fields named \<open>id\<close> in the source carry
  the class name as a suffix, since \<open>id\<close> is the identity function of HOL.
\<close>

datatype error = ZeroDivisionError | OverflowError

record Task =
  id_Task :: string
  period :: int
  execution_time :: int

record Job =
  task :: Task
  id_Job :: int
  arrival_time :: real
  remaining_time :: real
  absolute_deadline :: real
  completed :: bool

type_synonym log_entry = "real \<times> real \<times> string"

record Processor =
  id_Processor :: nat
  assigned_tasks :: "Task list"
  active_job :: "Job option"
  ready_queue :: "Job list"
  execution_log :: "log_entry list"

section \<open>Float arithmetic\<close>

subsection \<open>The runtime's operations as a parameter\<close>

text \<open>
  \<open>f_of_int\<close> is \<open>float(n)\<close> and \<open>f_div_int\<close> is \<open>a / b\<close> on ints, both where Python
  returns; \<open>f_sum\<close> is \<open>sum\<close> on a non-empty sequence of floats; \<open>f_pow\<close> is \<open>math.pow\<close>.
\<close>

record 'f float_ops =
  f_of_int :: "int \<Rightarrow> 'f"
  f_div_int :: "int \<Rightarrow> int \<Rightarrow> 'f"
  f_sum :: "'f list \<Rightarrow> 'f"
  f_add :: "'f \<Rightarrow> 'f \<Rightarrow> 'f"
  f_sub :: "'f \<Rightarrow> 'f \<Rightarrow> 'f"
  f_mul :: "'f \<Rightarrow> 'f \<Rightarrow> 'f"
  f_le :: "'f \<Rightarrow> 'f \<Rightarrow> bool"
  f_pow :: "'f \<Rightarrow> 'f \<Rightarrow> 'f"

text \<open>
  The least magnitude that rounds to \<open>2^1024\<close>: an int, or a quotient of ints, of at
  least this size has no double, and Python raises \<open>OverflowError\<close>.
\<close>

definition float_limit :: int where
  "float_limit = 2 ^ 1024 - 2 ^ 970"

text \<open>The conversion of an int operand of a float operation.\<close>

definition to_float :: "'f float_ops \<Rightarrow> int \<Rightarrow> error + 'f" where
  "to_float ops n =
     (if float_limit \<le> \<bar>n\<bar> then Inl OverflowError else Inr (f_of_int ops n))"

text \<open>True division of two ints.\<close>

definition true_div :: "'f float_ops \<Rightarrow> int \<Rightarrow> int \<Rightarrow> error + 'f" where
  "true_div ops a b =
     (if b = 0 then Inl ZeroDivisionError
      else if real_of_int float_limit \<le> \<bar>real_of_int a / real_of_int b\<bar>
      then Inl OverflowError
      else Inr (f_div_int ops a b))"

text \<open>Exact arithmetic over the reals, as an instance to evaluate examples with.\<close>

definition exact_ops :: "real float_ops" where
  "exact_ops =
     \<lparr>f_of_int = real_of_int, f_div_int = (\<lambda>a b. real_of_int a / real_of_int b),
      f_sum = sum_list, f_add = (+), f_sub = (-), f_mul = (*), f_le = (\<le>),
      f_pow = (powr)\<rparr>"

subsection \<open>Rounding to the nearest double\<close>

text \<open>
  Round to nearest, ties to even, with 53 significant bits: for \<open>2^e \<le> |x| < 2^(e+1)\<close>
  the doubles are the multiples of \<open>2^(e-52)\<close>.
\<close>

definition round_half_even :: "real \<Rightarrow> int" where
  "round_half_even r =
     (let f = \<lfloor>r\<rfloor>
      in if r - of_int f < 1 / 2 then f
         else if 1 / 2 < r - of_int f then f + 1
         else if even f then f else f + 1)"

definition fl :: "real \<Rightarrow> real" where
  "fl x =
     (if x = 0 then 0
      else (let u = 2 powr of_int (\<lfloor>log 2 \<bar>x\<bar>\<rfloor> - 52)
            in u * of_int (round_half_even (x / u))))"

section \<open>Tasks and processors: the methods\<close>

text \<open>\<open>Task.priority\<close>: the period.\<close>

definition priority :: "Task \<Rightarrow> int" where
  "priority t = period t"

text \<open>\<open>Task.utilization\<close>: true division of two ints.\<close>

definition utilization_Task :: "'f float_ops \<Rightarrow> Task \<Rightarrow> error + 'f" where
  "utilization_Task ops t = true_div ops (execution_time t) (period t)"

text \<open>\<open>Processor.__init__\<close>.\<close>

definition Processor_init :: "nat \<Rightarrow> Processor" where
  "Processor_init pid =
     \<lparr>id_Processor = pid, assigned_tasks = [], active_job = None, ready_queue = [],
      execution_log = []\<rparr>"

text \<open>The generator \<open>t.utilization for t in ...\<close>: left to right, stopping at the first raise.\<close>

fun utilizations :: "'f float_ops \<Rightarrow> Task list \<Rightarrow> error + 'f list" where
  "utilizations ops [] = Inr []"
| "utilizations ops (t # ts) =
     (case utilization_Task ops t of
        Inl e \<Rightarrow> Inl e
      | Inr u \<Rightarrow>
          (case utilizations ops ts of
             Inl e \<Rightarrow> Inl e
           | Inr us \<Rightarrow> Inr (u # us)))"

text \<open>
  \<open>Processor.utilization\<close>: \<open>sum\<close> of the generator. On no task \<open>sum\<close> answers the int 0,
  which the addition that follows converts to float.
\<close>

definition utilization_Processor :: "'f float_ops \<Rightarrow> Processor \<Rightarrow> error + 'f" where
  "utilization_Processor ops p =
     (case utilizations ops (assigned_tasks p) of
        Inl e \<Rightarrow> Inl e
      | Inr us \<Rightarrow> Inr (if us = [] then f_of_int ops 0 else f_sum ops us))"

definition add_task :: "Processor \<Rightarrow> Task \<Rightarrow> Processor" where
  "add_task p t = p\<lparr>assigned_tasks := assigned_tasks p @ [t]\<rparr>"

text \<open>\<open>list.sort(key=...)\<close> is stable, as the insertion sort \<open>sort_key\<close> is.\<close>

definition sort_ready_queue :: "Processor \<Rightarrow> Processor" where
  "sort_ready_queue p =
     p\<lparr>ready_queue := sort_key (\<lambda>j. period (task j)) (ready_queue p)\<rparr>"

section \<open>Admission test and First-Fit partitioning (main.py, lines 73-111)\<close>

text \<open>
  \<open>n * (math.pow(2, 1/n) - 1)\<close>: the quotient \<open>1/n\<close> of ints, \<open>math.pow\<close> on the floats of
  2 and of the quotient, the subtraction of the float of 1, and the product, whose int
  operand \<open>n\<close> is converted last.
\<close>

definition liu_layland_bound :: "'f float_ops \<Rightarrow> int \<Rightarrow> error + 'f" where
  "liu_layland_bound ops n =
     (if n = 0 then Inr (f_of_int ops 1)
      else (case true_div ops 1 n of
              Inl e \<Rightarrow> Inl e
            | Inr x \<Rightarrow>
                (let y = f_sub ops (f_pow ops (f_of_int ops 2) x) (f_of_int ops 1)
                 in case to_float ops n of
                      Inl e \<Rightarrow> Inl e
                    | Inr nf \<Rightarrow> Inr (f_mul ops nf y))))"

text \<open>
  The inner \<open>for proc in processors\<close> loop with its \<open>break\<close>: \<open>Inr (Some ps)\<close> is the
  list after the task was added to the first processor that passes the test,
  \<open>Inr None\<close> is the loop running to its end with \<open>assigned\<close> still false.
\<close>

fun first_fit :: "'f float_ops \<Rightarrow> Task \<Rightarrow> Processor list \<Rightarrow> error + Processor list option" where
  "first_fit ops t [] = Inr None"
| "first_fit ops t (proc # rest) =
     (let current_n = int (length (assigned_tasks proc));
          new_n = current_n + 1
      in case utilization_Processor ops proc of
           Inl e \<Rightarrow> Inl e
         | Inr current_u \<Rightarrow>
             (case utilization_Task ops t of
                Inl e \<Rightarrow> Inl e
              | Inr u \<Rightarrow>
                  (case liu_layland_bound ops new_n of
                     Inl e \<Rightarrow> Inl e
                   | Inr b \<Rightarrow>
                       if f_le ops (f_add ops current_u u) b
                       then Inr (Some (add_task proc t # rest))
                       else (case first_fit ops t rest of
                               Inl e \<Rightarrow> Inl e
                             | Inr None \<Rightarrow> Inr None
                             | Inr (Some rest') \<Rightarrow> Inr (Some (proc # rest'))))))"

text \<open>One iteration of \<open>for task in sorted_tasks\<close>.\<close>

definition place_task :: "'f float_ops \<Rightarrow> Processor list \<Rightarrow> Task \<Rightarrow> error + Processor list" where
  "place_task ops processors t =
     (case first_fit ops t processors of
        Inl e \<Rightarrow> Inl e
      | Inr (Some processors') \<Rightarrow> Inr processors'
      | Inr None \<Rightarrow>
          Inr (processors @ [add_task (Processor_init (length processors)) t]))"

fun place_all :: "'f float_ops \<Rightarrow> Processor list \<Rightarrow> Task list \<Rightarrow> error + Processor list" where
  "place_all ops processors [] = Inr processors"
| "place_all ops processors (t # ts) =
     (case place_task ops processors t of
        Inl e \<Rightarrow> Inl e
      | Inr processors' \<Rightarrow> place_all ops processors' ts)"

definition partition_tasks_ff_rm :: "'f float_ops \<Rightarrow> Task list \<Rightarrow> error + Processor list" where
  "partition_tasks_ff_rm ops tasks =
     place_all ops [Processor_init 0] (sort_key period tasks)"

section \<open>Discrete event simulation (main.py, lines 115-222)\<close>

text \<open>
  The state of the \<open>while\<close> loop. \<open>task_next_arrival\<close> holds, for the processor at the
  same position of \<open>processors\<close>, its dictionary from tasks to next arrival times as an
  association list in insertion order. The positions of the list stand for distinct
  \<open>Processor\<close> objects: one object listed twice is not expressed by this state.
  \<open>job_counters\<close> is the dictionary from task ids to the next job id.
\<close>

record sim_state =
  current_time :: real
  processors :: "Processor list"
  task_next_arrival :: "(Task \<times> real) list list"
  job_counters :: "string \<rightharpoonup> int"

text \<open>
  \<open>{task: 0.0 for task in proc.assigned_tasks}\<close>: a task that compares equal to an earlier
  key (same id, period and execution time) overwrites that key's value and adds no entry.
\<close>

definition dict_insert :: "(Task \<times> real) list \<Rightarrow> Task \<Rightarrow> (Task \<times> real) list" where
  "dict_insert d t =
     (if t \<in> set (map fst d) then map (\<lambda>(k, v). if k = t then (k, 0) else (k, v)) d
      else d @ [(t, 0)])"

definition init_arrivals :: "Task list \<Rightarrow> (Task \<times> real) list" where
  "init_arrivals ts = foldl dict_insert [] ts"

definition init_counters :: "Processor list \<Rightarrow> (string \<rightharpoonup> int)" where
  "init_counters ps =
     foldl (\<lambda>m t. m(id_Task t \<mapsto> 1)) Map.empty (concat (map assigned_tasks ps))"

definition init_state :: "Processor list \<Rightarrow> sim_state" where
  "init_state ps =
     \<lparr>current_time = 0, processors = ps,
      task_next_arrival = map (\<lambda>p. init_arrivals (assigned_tasks p)) ps,
      job_counters = init_counters ps\<rparr>"

subsection \<open>Step A: the next event\<close>

text \<open>\<open>float('inf')\<close> is \<open>None\<close>; \<open>if x < m: m = x\<close> is \<open>min_upd\<close>.\<close>

fun min_upd :: "real option \<Rightarrow> real \<Rightarrow> real option" where
  "min_upd None x = Some x"
| "min_upd (Some m) x = (if x < m then Some x else Some m)"

definition next_arrival :: "sim_state \<Rightarrow> real option" where
  "next_arrival st = foldl min_upd None (concat (map (map snd) (task_next_arrival st)))"

text \<open>\<open>completion_time = current_time + remaining_time\<close> is a float addition.\<close>

definition next_completion :: "sim_state \<Rightarrow> real option" where
  "next_completion st =
     foldl (\<lambda>nc proc. case active_job proc of
                         None \<Rightarrow> nc
                       | Some j \<Rightarrow> min_upd nc (fl (current_time st + remaining_time j)))
           None (processors st)"

text \<open>Python's \<open>min(a, b)\<close> answers \<open>b\<close> only when \<open>b < a\<close>.\<close>

fun min_inf :: "real option \<Rightarrow> real option \<Rightarrow> real option" where
  "min_inf None None = None"
| "min_inf None (Some b) = Some b"
| "min_inf (Some a) None = Some a"
| "min_inf (Some a) (Some b) = (if b < a then Some b else Some a)"

text \<open>
  Whether the event time is capped: then \<open>next_event_time\<close> is the int \<open>max_time\<close>
  itself, and the float operations that follow convert it.
\<close>

definition capped :: "int \<Rightarrow> sim_state \<Rightarrow> bool" where
  "capped max_time st =
     (case min_inf (next_arrival st) (next_completion st) of
        None \<Rightarrow> True
      | Some e \<Rightarrow> e > real_of_int max_time)"

text \<open>
  The event time after the cap at \<open>max_time\<close>; \<open>None\<close> is the \<open>break\<close> of line 154.
  A float is compared with an int by value.
\<close>

definition next_event_time :: "int \<Rightarrow> sim_state \<Rightarrow> real option" where
  "next_event_time max_time st =
     (let capped = (if real_of_int max_time = current_time st then None
                    else Some (real_of_int max_time))
      in case min_inf (next_arrival st) (next_completion st) of
           None \<Rightarrow> capped
         | Some e \<Rightarrow> if e > real_of_int max_time then capped else Some e)"

text \<open>The time as a float operand: converted when it is the int \<open>max_time\<close>.\<close>

definition as_float :: "bool \<Rightarrow> real \<Rightarrow> real" where
  "as_float is_int x = (if is_int then fl x else x)"

subsection \<open>Step B: advancing the active jobs and logging\<close>

definition log_execution :: "real \<Rightarrow> real \<Rightarrow> string \<Rightarrow> log_entry list \<Rightarrow> log_entry list" where
  "log_execution ct net tid entries =
     (if entries \<noteq> [] \<and> snd (snd (last entries)) = tid \<and> fst (snd (last entries)) = ct
      then butlast entries @ [(fst (last entries), net, snd (snd (last entries)))]
      else entries @ [(ct, net, tid)])"

text \<open>\<open>remaining_time -= dt\<close> is a float subtraction.\<close>

definition advance :: "real \<Rightarrow> real \<Rightarrow> real \<Rightarrow> Processor \<Rightarrow> Processor" where
  "advance ct net dt proc =
     (case active_job proc of
        None \<Rightarrow> proc
      | Some j \<Rightarrow>
          proc\<lparr>active_job := Some (j\<lparr>remaining_time := fl (remaining_time j - dt)\<rparr>),
               execution_log := log_execution ct net (id_Task (task j)) (execution_log proc)\<rparr>)"

subsection \<open>Step C: completions and arrivals\<close>

text \<open>The literal \<open>1e-9\<close>: the double nearest to it.\<close>

definition epsilon :: real where
  "epsilon = fl (1 / 10 ^ 9)"

text \<open>The completed job is flagged and dropped; nothing refers to it afterwards.\<close>

definition complete :: "Processor \<Rightarrow> Processor" where
  "complete proc =
     (case active_job proc of
        None \<Rightarrow> proc
      | Some j \<Rightarrow> if remaining_time j \<le> epsilon then proc\<lparr>active_job := None\<rparr> else proc)"

text \<open>
  \<open>job_counters[task.id]\<close>: every id read here was stored when the dictionary was built
  from the same \<open>assigned_tasks\<close>, so the lookup finds it.
\<close>

definition counter :: "(string \<rightharpoonup> int) \<Rightarrow> string \<Rightarrow> int" where
  "counter jc k = (case jc k of Some c \<Rightarrow> c | None \<Rightarrow> 0)"

text \<open>
  \<open>Job(...)\<close>: \<open>__post_init__\<close> converts the int execution time to float; the deadline is
  a float addition, or the sum of two ints when the time is the int \<open>max_time\<close>.
\<close>

definition new_job :: "bool \<Rightarrow> Task \<Rightarrow> int \<Rightarrow> real \<Rightarrow> Job" where
  "new_job is_int t n ct =
     \<lparr>task = t, id_Job = n, arrival_time = ct,
      remaining_time = fl (real_of_int (execution_time t)),
      absolute_deadline =
        (if is_int then ct + real_of_int (period t)
         else fl (ct + fl (real_of_int (period t)))),
      completed = False\<rparr>"

text \<open>
  The inner loop over the tasks of one processor's dictionary. The difference to the
  current time and the next arrival are float operations.
\<close>

fun handle_arrivals ::
  "bool \<Rightarrow> real \<Rightarrow> (Task \<times> real) list \<Rightarrow> Job list \<Rightarrow> (string \<rightharpoonup> int) \<Rightarrow>
   (Task \<times> real) list \<times> Job list \<times> (string \<rightharpoonup> int)" where
  "handle_arrivals is_int ct [] q jc = ([], q, jc)"
| "handle_arrivals is_int ct ((t, a) # rest) q jc =
     (if \<bar>fl (a - as_float is_int ct)\<bar> < epsilon
      then (case handle_arrivals is_int ct rest
                   (q @ [new_job is_int t (counter jc (id_Task t)) ct])
                   (jc(id_Task t \<mapsto> counter jc (id_Task t) + 1)) of
              (rest', q', jc') \<Rightarrow>
                ((t, fl (a + fl (real_of_int (period t)))) # rest', q', jc'))
      else (case handle_arrivals is_int ct rest q jc of
              (rest', q', jc') \<Rightarrow> ((t, a) # rest', q', jc')))"

text \<open>The outer loop over the processors, threading the job counters.\<close>

fun arrivals_all ::
  "bool \<Rightarrow> real \<Rightarrow> Processor list \<Rightarrow> (Task \<times> real) list list \<Rightarrow> (string \<rightharpoonup> int) \<Rightarrow>
   Processor list \<times> (Task \<times> real) list list \<times> (string \<rightharpoonup> int)" where
  "arrivals_all is_int ct (proc # ps) (d # ds) jc =
     (case handle_arrivals is_int ct d (ready_queue proc) jc of
        (d', q', jc') \<Rightarrow>
          (case arrivals_all is_int ct ps ds jc' of
             (ps', ds', jc'') \<Rightarrow> (proc\<lparr>ready_queue := q'\<rparr> # ps', d' # ds', jc'')))"
| "arrivals_all is_int ct ps ds jc = (ps, ds, jc)"

subsection \<open>Step D: the dispatcher\<close>

definition preempt :: "Processor \<Rightarrow> Processor" where
  "preempt proc =
     (case active_job proc of
        None \<Rightarrow> proc
      | Some a \<Rightarrow>
          if list_ex (\<lambda>job. period (task job) < period (task a)) (ready_queue proc)
          then proc\<lparr>ready_queue := ready_queue proc @ [a], active_job := None\<rparr>
          else proc)"

definition select_job :: "Processor \<Rightarrow> Processor" where
  "select_job proc =
     (case active_job proc of
        Some a \<Rightarrow> proc
      | None \<Rightarrow>
          (case ready_queue proc of
             [] \<Rightarrow> proc
           | j # q \<Rightarrow> proc\<lparr>active_job := Some j, ready_queue := q\<rparr>))"

definition dispatch :: "Processor \<Rightarrow> Processor" where
  "dispatch proc = select_job (sort_ready_queue (preempt proc))"

subsection \<open>The loop\<close>

text \<open>
  Steps A to C of one iteration: the state the dispatcher starts from. \<open>dt\<close> is a float
  subtraction.
\<close>

definition events_step :: "int \<Rightarrow> sim_state \<Rightarrow> sim_state option" where
  "events_step max_time st =
     (case next_event_time max_time st of
        None \<Rightarrow> None
      | Some net \<Rightarrow>
          (let ct = current_time st;
               is_int = capped max_time st;
               dt = fl (as_float is_int net - ct);
               ps1 = (if dt > 0 then map (advance ct net dt) (processors st)
                      else processors st);
               ps2 = map complete ps1
           in case arrivals_all is_int net ps2 (task_next_arrival st) (job_counters st) of
                (ps3, tna, jc) \<Rightarrow>
                  Some \<lparr>current_time = net, processors = ps3,
                        task_next_arrival = tna, job_counters = jc\<rparr>))"

definition sim_step :: "int \<Rightarrow> sim_state \<Rightarrow> sim_state option" where
  "sim_step max_time st =
     (case events_step max_time st of
        None \<Rightarrow> None
      | Some st' \<Rightarrow> Some (st'\<lparr>processors := map dispatch (processors st')\<rparr>))"

text \<open>The \<open>while\<close> loop may run forever: \<open>None\<close> is not returning.\<close>

partial_function (option) sim_loop :: "int \<Rightarrow> sim_state \<Rightarrow> sim_state option" where
  "sim_loop max_time st =
     (if current_time st < real_of_int max_time
      then (case sim_step max_time st of
              None \<Rightarrow> Some st
            | Some st' \<Rightarrow> sim_loop max_time st')
      else Some st)"

text \<open>
  \<open>run_simulation\<close> mutates the processors it was given; the model returns them.
\<close>

definition run_simulation :: "Processor list \<Rightarrow> int \<Rightarrow> Processor list option" where
  "run_simulation ps max_time = map_option processors (sim_loop max_time (init_state ps))"

text \<open>The states the loop passes through, at the head of the \<open>while\<close>.\<close>

inductive reachable :: "Processor list \<Rightarrow> int \<Rightarrow> sim_state \<Rightarrow> bool" where
  reach_init: "reachable ps max_time (init_state ps)"
| reach_step:
    "reachable ps max_time st \<Longrightarrow> current_time st < real_of_int max_time \<Longrightarrow>
     sim_step max_time st = Some st' \<Longrightarrow> reachable ps max_time st'"

section \<open>The specification's wording, for comparison with the code\<close>

text \<open>The bound as the specification writes it, over the reals, with the \<open>n\<close>-th root of 2.\<close>

definition bound_spec :: "nat \<Rightarrow> real" where
  "bound_spec n = (if n = 0 then 1 else real n * (root n 2 - 1))"

text \<open>
  The values the float operations give where nothing raises: a task's utilization, a
  processor's utilization and the bound for \<open>n \<noteq> 0\<close> tasks.
\<close>

definition util :: "'f float_ops \<Rightarrow> Task \<Rightarrow> 'f" where
  "util ops t = f_div_int ops (execution_time t) (period t)"

definition proc_util :: "'f float_ops \<Rightarrow> Processor \<Rightarrow> 'f" where
  "proc_util ops p =
     (if assigned_tasks p = [] then f_of_int ops 0
      else f_sum ops (map (util ops) (assigned_tasks p)))"

definition bound_value :: "'f float_ops \<Rightarrow> int \<Rightarrow> 'f" where
  "bound_value ops n =
     f_mul ops (f_of_int ops n)
       (f_sub ops (f_pow ops (f_of_int ops 2) (f_div_int ops 1 n)) (f_of_int ops 1))"

text \<open>The bound's formula in exact arithmetic.\<close>

definition exact_bound :: "int \<Rightarrow> real" where
  "exact_bound n = real_of_int n * (2 powr (1 / real_of_int n) - 1)"

text \<open>The tasks whose utilization Python computes without raising.\<close>

definition computable :: "Task \<Rightarrow> bool" where
  "computable t \<longleftrightarrow>
     period t \<noteq> 0 \<and>
     \<bar>real_of_int (execution_time t) / real_of_int (period t)\<bar> < real_of_int float_limit"

text \<open>
  The First-Fit step as the specification words it: the task goes to the first
  processor, in list order, whose utilization plus the task's is at most the bound for
  one more task; if there is none, a new processor whose id is the current number of
  processors is appended, holding only that task.
  \<open>List.extract P xs\<close> splits \<open>xs\<close> at its first element satisfying \<open>P\<close>.
\<close>

definition admits :: "'f float_ops \<Rightarrow> Processor \<Rightarrow> Task \<Rightarrow> bool" where
  "admits ops p t \<longleftrightarrow>
     f_le ops (f_add ops (proc_util ops p) (util ops t))
       (bound_value ops (int (length (assigned_tasks p)) + 1))"

definition place_spec :: "'f float_ops \<Rightarrow> Processor list \<Rightarrow> Task \<Rightarrow> Processor list" where
  "place_spec ops ps t =
     (case List.extract (\<lambda>p. admits ops p t) ps of
        Some (before, p, after) \<Rightarrow>
          before @ [p\<lparr>assigned_tasks := assigned_tasks p @ [t]\<rparr>] @ after
      | None \<Rightarrow>
          ps @ [\<lparr>id_Processor = length ps, assigned_tasks = [t], active_job = None,
                 ready_queue = [], execution_log = []\<rparr>])"

definition all_tasks :: "Processor list \<Rightarrow> Task list" where
  "all_tasks ps = concat (map assigned_tasks ps)"

section \<open>Example task sets\<close>

text \<open>The tasks of test_ffrm.py.\<close>

definition T1 :: Task where
  "T1 = \<lparr>id_Task = ''T1'', period = 2, execution_time = 1\<rparr>"

definition T2 :: Task where
  "T2 = \<lparr>id_Task = ''T2'', period = 2, execution_time = 1\<rparr>"

definition T3 :: Task where
  "T3 = \<lparr>id_Task = ''T3'', period = 5, execution_time = 4\<rparr>"

text \<open>Two light tasks of period 4 and a heavy one of period 5, given heavy first.\<close>

definition Ta :: Task where
  "Ta = \<lparr>id_Task = ''Ta'', period = 4, execution_time = 1\<rparr>"

definition Tb :: Task where
  "Tb = \<lparr>id_Task = ''Tb'', period = 4, execution_time = 1\<rparr>"

definition Tc :: Task where
  "Tc = \<lparr>id_Task = ''Tc'', period = 5, execution_time = 4\<rparr>"

text \<open>A task set of utilization 1.5 on one processor: two jobs of \<open>A\<close> are pending at time 4.\<close>

definition task_A :: Task where
  "task_A = \<lparr>id_Task = ''A'', period = 4, execution_time = 4\<rparr>"

definition task_B :: Task where
  "task_B = \<lparr>id_Task = ''B'', period = 2, execution_time = 1\<rparr>"

definition cpu_AB :: Processor where
  "cpu_AB = add_task (add_task (Processor_init 0) task_A) task_B"

text \<open>The single task of the specification's last scenario: period 10, execution time 3.\<close>

definition task_S :: Task where
  "task_S = \<lparr>id_Task = ''S'', period = 10, execution_time = 3\<rparr>"

definition cpu_S :: Processor where
  "cpu_S = add_task (Processor_init 0) task_S"

text \<open>The same processor as a run to horizon 30 leaves it.\<close>

definition cpu_S_ran :: Processor where
  "cpu_S_ran =
     cpu_S\<lparr>active_job := Some (new_job False task_S 4 30),
            execution_log := [(0, 3, ''S''), (10, 13, ''S''), (20, 23, ''S'')]\<rparr>"

text \<open>
  A task of period \<open>2^53\<close> and execution time 3: from time \<open>2^53\<close> on, the doubles are
  the even numbers.
\<close>

definition task_D :: Task where
  "task_D = \<lparr>id_Task = ''D'', period = 9007199254740992, execution_time = 3\<rparr>"

definition cpu_D :: Processor where
  "cpu_D = add_task (Processor_init 0) task_D"

section \<open>Predicates of the simulation's properties\<close>

text \<open>The first \<open>n\<close> iterations of the loop; \<open>None\<close> when the loop stops earlier.\<close>

fun sim_steps :: "nat \<Rightarrow> int \<Rightarrow> sim_state \<Rightarrow> sim_state option" where
  "sim_steps 0 max_time st = Some st"
| "sim_steps (Suc n) max_time st =
     (if current_time st < real_of_int max_time
      then (case sim_step max_time st of
              None \<Rightarrow> None
            | Some st' \<Rightarrow> sim_steps n max_time st')
      else None)"

text \<open>The tasks the specification's data model admits, as far as the simulation needs.\<close>

definition valid_task :: "Task \<Rightarrow> bool" where
  "valid_task t \<longleftrightarrow> 0 < period t \<and> 0 < execution_time t"

text \<open>A processor as the constructor and \<open>add_task\<close> leave it: idle, nothing queued or logged.\<close>

definition fresh :: "Processor \<Rightarrow> bool" where
  "fresh proc \<longleftrightarrow>
     active_job proc = None \<and> ready_queue proc = [] \<and> execution_log proc = []"

definition valid_input :: "Processor list \<Rightarrow> bool" where
  "valid_input ps \<longleftrightarrow>
     list_all (\<lambda>proc. fresh proc \<and> list_all valid_task (assigned_tasks proc)) ps"

text \<open>
  Horizon and task parameters small enough that every time the simulation computes is
  a whole number of magnitude at most \<open>2^53\<close>, where float arithmetic is exact.
\<close>

definition small_task :: "int \<Rightarrow> Task \<Rightarrow> bool" where
  "small_task max_time t \<longleftrightarrow>
     max_time + period t \<le> 9007199254740992 \<and>
     max_time + execution_time t \<le> 9007199254740992"

definition small_input :: "int \<Rightarrow> Processor list \<Rightarrow> bool" where
  "small_input max_time ps \<longleftrightarrow>
     max_time \<le> 9007199254740992 \<and>
     list_all (\<lambda>proc. list_all (small_task max_time) (assigned_tasks proc)) ps"

text \<open>The jobs a processor holds: the active one, then the ready queue.\<close>

definition jobs_of :: "Processor \<Rightarrow> Job list" where
  "jobs_of proc = (case active_job proc of None \<Rightarrow> [] | Some a \<Rightarrow> [a]) @ ready_queue proc"

text \<open>
  Two consecutive log entries: the second starts no earlier than the first ends, and
  they are not a contiguous pair of the same task.
\<close>

definition follows :: "log_entry \<Rightarrow> log_entry \<Rightarrow> bool" where
  "follows e1 e2 \<longleftrightarrow>
     fst (snd e1) \<le> fst e2 \<and> \<not> (fst (snd e1) = fst e2 \<and> snd (snd e1) = snd (snd e2))"

definition log_ok :: "real \<Rightarrow> log_entry list \<Rightarrow> bool" where
  "log_ok t entries \<longleftrightarrow>
     list_all (\<lambda>e. fst e < fst (snd e) \<and> fst (snd e) \<le> t) entries \<and>
     successively follows entries"

text \<open>Equal-period jobs stand in the order of their arrival times.\<close>

definition arrival_ordered :: "Job list \<Rightarrow> bool" where
  "arrival_ordered q =
     sorted_wrt (\<lambda>j1 j2. period (task j1) \<noteq> period (task j2) \<or>
                          arrival_time j1 \<le> arrival_time j2) q"

text \<open>The times the next event is chosen from: scheduled arrivals and completion times.\<close>

definition arrival_times :: "sim_state \<Rightarrow> real list" where
  "arrival_times st = concat (map (map snd) (task_next_arrival st))"

definition completion_times :: "sim_state \<Rightarrow> real list" where
  "completion_times st =
     concat (map (\<lambda>proc. case active_job proc of
                            None \<Rightarrow> []
                          | Some j \<Rightarrow> [fl (current_time st + remaining_time j)])
                 (processors st))"

text \<open>
  The invariant of the loop for valid, small input: times are whole numbers between 0
  and the horizon, no scheduled arrival lies in the past or more than a period beyond
  the horizon, every job a processor holds has positive remaining time within its
  task's execution time, and every log is in order up to the current time.
\<close>

definition task_ok :: "int \<Rightarrow> Task \<Rightarrow> bool" where
  "task_ok max_time t \<longleftrightarrow> valid_task t \<and> small_task max_time t"

definition good_job :: "int \<Rightarrow> Job \<Rightarrow> bool" where
  "good_job max_time j \<longleftrightarrow>
     task_ok max_time (task j) \<and> remaining_time j \<in> \<int> \<and> 0 < remaining_time j \<and>
     remaining_time j \<le> real_of_int (execution_time (task j))"

definition proc_ok :: "int \<Rightarrow> real \<Rightarrow> Processor \<Rightarrow> bool" where
  "proc_ok max_time t proc \<longleftrightarrow>
     list_all (good_job max_time) (jobs_of proc) \<and> log_ok t (execution_log proc)"

definition arrivals_ok :: "int \<Rightarrow> real \<Rightarrow> (Task \<times> real) list \<Rightarrow> bool" where
  "arrivals_ok max_time t d \<longleftrightarrow>
     list_all (\<lambda>(k, a). task_ok max_time k \<and> a \<in> \<int> \<and> t \<le> a \<and>
                         a \<le> real_of_int (max_time + period k)) d"

definition sim_inv :: "int \<Rightarrow> sim_state \<Rightarrow> bool" where
  "sim_inv max_time st \<longleftrightarrow>
     current_time st \<in> \<int> \<and> 0 \<le> current_time st \<and>
     current_time st \<le> real_of_int max_time \<and> max_time \<le> 9007199254740992 \<and>
     length (task_next_arrival st) = length (processors st) \<and>
     list_all (arrivals_ok max_time (current_time st)) (task_next_arrival st) \<and>
     list_all (proc_ok max_time (current_time st)) (processors st)"

text \<open>After the first iteration every scheduled arrival lies strictly ahead.\<close>

definition sim_inv_strict :: "int \<Rightarrow> sim_state \<Rightarrow> bool" where
  "sim_inv_strict max_time st \<longleftrightarrow>
     sim_inv max_time st \<and> list_all (\<lambda>a. current_time st < a) (arrival_times st)"

text \<open>
  The invariant that needs no arithmetic: the dictionaries hold valid tasks, and every
  job a processor holds has remaining time above the completion tolerance.
\<close>

definition jobs_positive :: "sim_state \<Rightarrow> bool" where
  "jobs_positive st \<longleftrightarrow>
     list_all (list_all (\<lambda>(k, a). valid_task k)) (task_next_arrival st) \<and>
     list_all (\<lambda>proc. list_all (\<lambda>j. epsilon < remaining_time j) (jobs_of proc))
       (processors st)"

text \<open>
  The execution-log invariant in the specification's words: every entry has
  \<open>start < end\<close>; entries are pairwise non-overlapping, each ending before any later one
  starts; they are sorted by start time; and no two consecutive entries are contiguous
  with the same task id.
\<close>

definition log_invariant :: "log_entry list \<Rightarrow> bool" where
  "log_invariant entries \<longleftrightarrow>
     list_all (\<lambda>(s, e, k). s < e) entries \<and>
     sorted_wrt (\<lambda>(s1, e1, k1) (s2, e2, k2). e1 \<le> s2) entries \<and>
     sorted (map fst entries) \<and>
     successively (\<lambda>(s1, e1, k1) (s2, e2, k2). \<not> (e1 = s2 \<and> k1 = k2)) entries"

section \<open>Properties\<close>

subsection \<open>Rounding to doubles\<close>

lemma round_half_even_of_int: "round_half_even (of_int k) = k"
  by (simp add: round_half_even_def)

lemma round_half_even_bounds: "\<lfloor>r\<rfloor> \<le> round_half_even r" "round_half_even r \<le> \<lfloor>r\<rfloor> + 1"
  by (simp_all add: round_half_even_def Let_def)

lemma floor_log2_bounds:
  assumes "0 < x"
  shows "2 powr of_int \<lfloor>log 2 x\<rfloor> \<le> x" and "x < 2 powr (of_int \<lfloor>log 2 x\<rfloor> + 1)"
proof -
  have "of_int \<lfloor>log 2 x\<rfloor> \<le> log 2 x" by simp
  moreover have "(of_int \<lfloor>log 2 x\<rfloor> \<le> log 2 x) = (2 powr of_int \<lfloor>log 2 x\<rfloor> \<le> x)"
    using assms by (intro le_log_iff) simp_all
  ultimately show "2 powr of_int \<lfloor>log 2 x\<rfloor> \<le> x"
    by (simp only:)
  have "log 2 x < of_int \<lfloor>log 2 x\<rfloor> + 1" by linarith
  moreover have "(log 2 x < of_int \<lfloor>log 2 x\<rfloor> + 1) = (x < 2 powr (of_int \<lfloor>log 2 x\<rfloor> + 1))"
    using assms by (intro log_less_iff) simp_all
  ultimately show "x < 2 powr (of_int \<lfloor>log 2 x\<rfloor> + 1)"
    by (simp only:)
qed

lemma floor_log2_eq:
  assumes "2 powr of_int e \<le> x" and "x < 2 powr (of_int e + 1)"
  shows "\<lfloor>log 2 x\<rfloor> = e"
proof -
  have pos: "0 < x"
    using assms(1) powr_gt_zero [of 2 "of_int e"] by linarith
  from assms(1) pos have "of_int e \<le> log 2 x" by (simp add: le_log_iff)
  moreover from assms(2) pos have "log 2 x < of_int e + 1" by (simp add: log_less_iff)
  ultimately show ?thesis by (intro floor_unique) simp_all
qed

lemma fl_binade:
  assumes "2 powr of_int e \<le> \<bar>x\<bar>" and "\<bar>x\<bar> < 2 powr (of_int e + 1)"
  shows "fl x = 2 powr of_int (e - 52) *
                of_int (round_half_even (x / 2 powr of_int (e - 52)))"
proof -
  have "x \<noteq> 0"
    using assms(1) powr_gt_zero [of 2 "of_int e"] by auto
  moreover from floor_log2_eq [OF assms] have "\<lfloor>log 2 \<bar>x\<bar>\<rfloor> = e" .
  ultimately show ?thesis by (simp add: fl_def Let_def)
qed

lemma fl_zero: "fl 0 = 0"
  by (simp add: fl_def)

lemma fl_lower:
  assumes "0 < x"
  shows "2 powr of_int \<lfloor>log 2 x\<rfloor> \<le> fl x"
proof -
  define e where "e = \<lfloor>log 2 x\<rfloor>"
  define u :: real where "u = 2 powr of_int (e - 52)"
  have u: "0 < u" by (simp add: u_def)
  have "2 powr of_int e \<le> x"
    using floor_log2_bounds(1) [OF assms] by (simp add: e_def)
  moreover have "2 powr of_int e = u * 2 ^ 52"
  proof -
    have "u * 2 powr 52 = 2 powr (of_int (e - 52) + 52)"
      unfolding u_def by (simp only: powr_add)
    then show ?thesis by simp
  qed
  ultimately have "2 ^ 52 \<le> x / u"
    using u by (simp add: field_simps)
  then have "(2 ^ 52 :: int) \<le> \<lfloor>x / u\<rfloor>"
    by (simp add: le_floor_iff)
  with round_half_even_bounds(1) [of "x / u"] have "(2 ^ 52 :: int) \<le> round_half_even (x / u)"
    by linarith
  then have "(2 ^ 52 :: real) \<le> of_int (round_half_even (x / u))"
    by (metis of_int_le_iff of_int_numeral of_int_power)
  with u have "u * 2 ^ 52 \<le> u * of_int (round_half_even (x / u))"
    by (simp only: mult_le_cancel_left_pos)
  moreover from assms have "fl x = u * of_int (round_half_even (x / u))"
    by (simp add: fl_def u_def e_def Let_def)
  ultimately show ?thesis
    using \<open>2 powr of_int e = u * 2 ^ 52\<close> by (simp add: e_def)
qed

lemma fl_upper:
  assumes "0 < x"
  shows "fl x \<le> 2 powr (of_int \<lfloor>log 2 x\<rfloor> + 1)"
proof -
  define e where "e = \<lfloor>log 2 x\<rfloor>"
  define u :: real where "u = 2 powr of_int (e - 52)"
  have u: "0 < u" by (simp add: u_def)
  have top: "2 powr (of_int e + 1) = u * 2 ^ 53"
  proof -
    have "u * 2 powr 53 = 2 powr (of_int (e - 52) + 53)"
      unfolding u_def by (simp only: powr_add)
    moreover have "of_int (e - 52) + (53 :: real) = of_int e + 1" by simp
    ultimately show ?thesis by (simp add: add.commute)
  qed
  have "x < 2 powr (of_int e + 1)"
    using floor_log2_bounds(2) [OF assms] by (simp add: e_def)
  with top u have "x / u < 2 ^ 53"
    by (simp add: field_simps)
  then have "\<lfloor>x / u\<rfloor> < (2 ^ 53 :: int)"
    by (simp add: floor_less_iff)
  with round_half_even_bounds(2) [of "x / u"] have "round_half_even (x / u) \<le> (2 ^ 53 :: int)"
    by linarith
  then have "of_int (round_half_even (x / u)) \<le> (2 ^ 53 :: real)"
    by (metis of_int_le_iff of_int_numeral of_int_power)
  with u have "u * of_int (round_half_even (x / u)) \<le> u * 2 ^ 53"
    by (simp only: mult_le_cancel_left_pos)
  moreover from assms have "fl x = u * of_int (round_half_even (x / u))"
    by (simp add: fl_def u_def e_def Let_def)
  ultimately show ?thesis
    using top by (simp add: e_def)
qed

lemma fl_ge_one:
  assumes "1 \<le> x"
  shows "1 \<le> fl x"
proof -
  from assms have pos: "0 < x" by simp
  from assms have "0 \<le> log 2 x" by simp
  then have "0 \<le> \<lfloor>log 2 x\<rfloor>" by simp
  then have "(1 :: real) \<le> 2 powr of_int \<lfloor>log 2 x\<rfloor>"
    by (simp add: ge_one_powr_ge_zero)
  with fl_lower [OF pos] show ?thesis by linarith
qed

lemma epsilon_bounds: "0 < epsilon" "epsilon < 1"
proof -
  have pos: "(0 :: real) < 1 / 10 ^ 9" by simp
  from fl_lower [OF pos] powr_gt_zero [of 2 "of_int \<lfloor>log 2 (1 / 10 ^ 9 :: real)\<rfloor>"]
  show "0 < epsilon" unfolding epsilon_def by linarith
  have "(1 / 10 ^ 9 :: real) < 2 powr (- 2)"
    by (simp add: powr_minus field_simps)
  moreover have "(log 2 (1 / 10 ^ 9 :: real) < - 2) = ((1 / 10 ^ 9 :: real) < 2 powr (- 2))"
    using pos by (intro log_less_iff) simp_all
  ultimately have "log 2 (1 / 10 ^ 9 :: real) < - 2"
    by (simp only:)
  then have "\<lfloor>log 2 (1 / 10 ^ 9 :: real)\<rfloor> < - 2"
    by (simp add: floor_less_iff)
  then have "of_int \<lfloor>log 2 (1 / 10 ^ 9 :: real)\<rfloor> + (1 :: real) \<le> - 1"
    by linarith
  then have "2 powr (of_int \<lfloor>log 2 (1 / 10 ^ 9 :: real)\<rfloor> + 1) \<le> (2 :: real) powr (- 1)"
    by (simp only: powr_le_cancel_iff [of 2] one_less_numeral_iff semiring_norm)
  also have "(2 :: real) powr (- 1) = 1 / 2"
    by (simp add: powr_minus)
  finally show "epsilon < 1"
    using fl_upper [OF pos] unfolding epsilon_def by linarith
qed

lemma fl_of_int:
  assumes "\<bar>k\<bar> \<le> 9007199254740992"
  shows "fl (of_int k) = of_int k"
proof (cases "k = 0")
  case True
  then show ?thesis by (simp add: fl_zero)
next
  case False
  define x :: real where "x = \<bar>of_int k\<bar>"
  define e where "e = \<lfloor>log 2 x\<rfloor>"
  define u :: real where "u = 2 powr of_int (e - 52)"
  from False have "1 \<le> \<bar>k\<bar>" by simp
  then have "(of_int 1 :: real) \<le> of_int \<bar>k\<bar>" by (simp only: of_int_le_iff)
  then have x1: "1 \<le> x" by (simp add: x_def)
  then have pos: "0 < x" by simp
  from assms have "(of_int \<bar>k\<bar> :: real) \<le> of_int 9007199254740992"
    by (simp only: of_int_le_iff)
  then have x53: "x \<le> 2 ^ 53" by (simp add: x_def)
  have e0: "0 \<le> e" using x1 by (simp add: e_def)
  have "log 2 x \<le> 53"
    using pos x53 by (simp add: log_le_iff)
  then have e53: "e \<le> 53" by (simp add: e_def floor_le_iff)
  have fl_eq: "fl (of_int k) = u * of_int (round_half_even (of_int k / u))"
    using False by (simp add: fl_def u_def e_def x_def Let_def)
  have "\<exists>m :: int. of_int k / u = of_int m"
  proof (cases "e \<le> 52")
    case True
    have "(2 :: real) powr real_of_int (e - 52) =
            (if 0 \<le> e - 52 then 2 ^ nat (e - 52) else inverse (2 ^ nat (- (e - 52))))"
      by (rule powr_real_of_int) simp
    with True have "u = 1 / 2 ^ nat (52 - e)"
      unfolding u_def by (cases "e = 52") (simp_all add: inverse_eq_divide)
    then have "of_int k / u = of_int (k * 2 ^ nat (52 - e))" by simp
    then show ?thesis by blast
  next
    case False
    with e53 have e: "e = 53" by simp
    then have u2: "u = 2" by (simp add: u_def)
    have "(2 :: real) powr of_int 53 = 2 ^ 53"
      using powr_realpow [of 2 53] by simp
    with floor_log2_bounds(1) [OF pos] e have "2 ^ 53 \<le> x"
      by (simp only: e_def)
    with x53 have "x = 2 ^ 53" by simp
    then have "of_int k = (2 ^ 53 :: real) \<or> of_int k = - (2 ^ 53 :: real)"
      unfolding x_def by (auto simp: abs_if split: if_splits)
    then have "of_int k / u = of_int (2 ^ 52) \<or> of_int k / u = of_int (- (2 ^ 52))"
      using u2 by auto
    then show ?thesis by blast
  qed
  then obtain m :: int where m: "of_int k / u = of_int m" by blast
  have "0 < u" by (simp add: u_def)
  with m have "of_int k = u * of_int m" by (simp add: field_simps)
  with fl_eq m show ?thesis by (simp add: round_half_even_of_int)
qed

subsection \<open>The admission test\<close>

lemma float_limit_pos: "1 < float_limit"
  by (simp add: float_limit_def)

lemma true_div_one:
  assumes "n \<noteq> 0"
  shows "true_div ops 1 n = Inr (f_div_int ops 1 n)"
proof -
  from assms have "1 \<le> \<bar>n\<bar>" by simp
  then have "(of_int 1 :: real) \<le> of_int \<bar>n\<bar>" by (simp only: of_int_le_iff)
  then have "\<bar>1 / real_of_int n\<bar> \<le> 1" by (simp add: field_simps)
  moreover have "(1 :: real) < real_of_int float_limit"
    using float_limit_pos by simp
  ultimately have "\<not> real_of_int float_limit \<le> \<bar>real_of_int 1 / real_of_int n\<bar>"
    by simp
  with assms show ?thesis by (simp add: true_div_def)
qed

lemma liu_layland_bound_zero: "liu_layland_bound ops 0 = Inr (f_of_int ops 1)"
  by (simp add: liu_layland_bound_def)

lemma liu_layland_bound_returns:
  assumes "n \<noteq> 0" and "\<bar>n\<bar> < float_limit"
  shows "liu_layland_bound ops n = Inr (bound_value ops n)"
  using assms true_div_one [OF assms(1), of ops]
  by (simp add: liu_layland_bound_def to_float_def bound_value_def)

lemma liu_layland_bound_raises:
  assumes "float_limit \<le> \<bar>n\<bar>"
  shows "liu_layland_bound ops n = Inl OverflowError"
proof -
  from assms float_limit_pos have "n \<noteq> 0" by auto
  with assms true_div_one [of n ops] show ?thesis
    by (simp add: liu_layland_bound_def to_float_def)
qed

lemma bound_value_exact: "bound_value exact_ops n = exact_bound n"
  by (simp add: bound_value_def exact_ops_def exact_bound_def)

lemma exact_bound_root:
  assumes "0 < k"
  shows "exact_bound (int k) = bound_spec k"
proof -
  from assms have "root k 2 = 2 powr (1 / real k)"
    by (simp add: root_powr_inverse)
  with assms show ?thesis by (simp add: exact_bound_def bound_spec_def)
qed

text \<open>
  Claim C8, as stated: for every non-negative integer \<open>n\<close> the function returns, with no
  error condition. The product \<open>n * (...)\<close> converts \<open>n\<close> to float, and an int of
  magnitude \<open>2^1024\<close> has no double: whatever the float operations compute, the call
  raises \<open>OverflowError\<close>.
\<close>

theorem liu_layland_bound_counterexample:
  "\<forall>ops. liu_layland_bound ops (2 ^ 1024) = Inl OverflowError"
  by (simp add: liu_layland_bound_raises float_limit_def)

text \<open>
  Claim C8, amended: \<open>liu_layland_bound\<close> returns the float 1 for \<open>n = 0\<close>; for
  \<open>0 < n < 2^1024 - 2^970\<close> it returns \<open>n * (2^(1/n) - 1)\<close> as the float operations
  compute it, which in exact arithmetic is the specification's formula; for larger
  \<open>n\<close> it raises \<open>OverflowError\<close>. It has no side effect.
\<close>

theorem liu_layland_bound_cases:
  "liu_layland_bound ops 0 = Inr (f_of_int ops 1) \<and>
   (\<forall>n. 0 < n \<and> n < float_limit \<longrightarrow> liu_layland_bound ops n = Inr (bound_value ops n)) \<and>
   (\<forall>n. float_limit \<le> n \<longrightarrow> liu_layland_bound ops n = Inl OverflowError) \<and>
   (\<forall>k. 0 < k \<longrightarrow> bound_value exact_ops (int k) = bound_spec k)"
  by (simp add: liu_layland_bound_zero liu_layland_bound_returns liu_layland_bound_raises
      bound_value_exact exact_bound_root)

theorem liu_layland_bound_cases_witness:
  "(0 :: int) < 1 \<and> (1 :: int) < float_limit \<and>
   liu_layland_bound exact_ops 1 = Inr (bound_value exact_ops 1) \<and>
   bound_value exact_ops 1 = 1 \<and>
   float_limit \<le> 2 ^ 1024 \<and> liu_layland_bound exact_ops (2 ^ 1024) = Inl OverflowError"
proof -
  have h1: "(0 :: int) < 1 \<and> (1 :: int) < float_limit"
    using float_limit_pos by simp
  have h2: "float_limit \<le> 2 ^ 1024" by (simp add: float_limit_def)
  from liu_layland_bound_cases [of exact_ops]
  have a: "\<forall>n. 0 < n \<and> n < float_limit \<longrightarrow>
             liu_layland_bound exact_ops n = Inr (bound_value exact_ops n)"
    and b: "\<forall>n. float_limit \<le> n \<longrightarrow> liu_layland_bound exact_ops n = Inl OverflowError"
    by blast+
  from a h1 have "liu_layland_bound exact_ops 1 = Inr (bound_value exact_ops 1)" by blast
  moreover from b h2 have "liu_layland_bound exact_ops (2 ^ 1024) = Inl OverflowError" by blast
  moreover have "bound_value exact_ops 1 = 1"
    by (simp add: bound_value_exact exact_bound_def)
  ultimately show ?thesis using h1 h2 by blast
qed

text \<open>Numerical estimates of the exact bound, for evaluating the admission test.\<close>

lemma powr_inverse_less:
  assumes "0 < n" and "0 < x" and "2 < x ^ n"
  shows "2 powr (1 / real n) < x"
proof -
  have "root n 2 < root n (x ^ n)"
    using assms by (simp add: real_root_less_iff)
  also have "root n (x ^ n) = x"
    using assms by (simp add: real_root_power_cancel)
  finally show ?thesis
    using assms by (simp add: root_powr_inverse)
qed

lemma powr_inverse_greater:
  assumes "0 < n" and "0 < x" and "x ^ n < 2"
  shows "x < 2 powr (1 / real n)"
proof -
  have "root n (x ^ n) < root n 2"
    using assms by (simp add: real_root_less_iff)
  moreover have "root n (x ^ n) = x"
    using assms by (simp add: real_root_power_cancel)
  ultimately show ?thesis
    using assms by (simp add: root_powr_inverse)
qed

lemma bound_1: "exact_bound 1 = 1"
  by (simp add: exact_bound_def)

lemma bound_2: "4 / 5 < exact_bound 2" "exact_bound 2 < 1"
proof -
  have "2 powr (1 / real 2) < 3 / 2"
    by (rule powr_inverse_less) (simp_all add: power2_eq_square)
  moreover have "7 / 5 < 2 powr (1 / real 2)"
    by (rule powr_inverse_greater) (simp_all add: power2_eq_square)
  ultimately show "4 / 5 < exact_bound 2" "exact_bound 2 < 1"
    by (simp_all add: exact_bound_def)
qed

lemma bound_3: "exact_bound 3 < 9 / 10"
proof -
  have "2 powr (1 / real 3) < 13 / 10"
    by (rule powr_inverse_less) (simp_all add: power3_eq_cube)
  then show ?thesis
    by (simp add: exact_bound_def)
qed







subsection \<open>The partitioner\<close>

text \<open>
  Claim C1, as stated: partitioning the empty task list returns an empty list of
  processors. The code starts from the list holding processor 0, so the statement fails.
\<close>

theorem partition_empty_counterexample: "\<forall>ops. partition_tasks_ff_rm ops [] \<noteq> Inr []"
  by (simp add: partition_tasks_ff_rm_def)

text \<open>
  Claim C1, amended: partitioning the empty task list returns exactly one processor,
  with id 0, no assigned task, no active job, an empty ready queue and an empty log.
\<close>

theorem partition_empty_one_processor:
  "partition_tasks_ff_rm ops [] =
     Inr [\<lparr>id_Processor = 0, assigned_tasks = [], active_job = None, ready_queue = [],
           execution_log = []\<rparr>]"
  by (simp add: partition_tasks_ff_rm_def Processor_init_def)

text \<open>
  Where no division raises and no task count is beyond the doubles, the loops of the
  code compute the First-Fit step of the specification, whatever the float operations
  answer.
\<close>

lemma utilization_Task_ok: "computable t \<Longrightarrow> utilization_Task ops t = Inr (util ops t)"
  by (simp add: utilization_Task_def true_div_def computable_def util_def)

lemma utilizations_ok:
  "\<forall>t\<in>set ts. computable t \<Longrightarrow> utilizations ops ts = Inr (map (util ops) ts)"
  by (induction ts) (simp_all add: utilization_Task_ok)

lemma utilization_Processor_ok:
  "\<forall>t\<in>set (assigned_tasks p). computable t \<Longrightarrow>
   utilization_Processor ops p = Inr (proc_util ops p)"
  by (simp add: utilization_Processor_def utilizations_ok proc_util_def)

lemma first_fit_ok:
  assumes "computable t" and "\<forall>u\<in>set (all_tasks ps). computable u"
    and "\<forall>p\<in>set ps. int (length (assigned_tasks p)) + 1 < float_limit"
  shows "first_fit ops t ps =
           Inr (case List.extract (\<lambda>p. admits ops p t) ps of
                  None \<Rightarrow> None
                | Some (before, p, after) \<Rightarrow> Some (before @ [add_task p t] @ after))"
  using assms(2,3)
proof (induction ps)
  case Nil
  then show ?case by (simp add: extract_Nil_code)
next
  case (Cons proc rest)
  have u: "utilization_Processor ops proc = Inr (proc_util ops proc)"
    using Cons.prems by (intro utilization_Processor_ok) (simp add: all_tasks_def)
  have b: "liu_layland_bound ops (int (length (assigned_tasks proc)) + 1) =
             Inr (bound_value ops (int (length (assigned_tasks proc)) + 1))"
    using Cons.prems(2) by (intro liu_layland_bound_returns) simp_all
  have ih: "first_fit ops t rest =
           Inr (case List.extract (\<lambda>p. admits ops p t) rest of
                  None \<Rightarrow> None
                | Some (before, p, after) \<Rightarrow> Some (before @ [add_task p t] @ after))"
    using Cons by (simp add: all_tasks_def)
  have test: "f_le ops (f_add ops (proc_util ops proc) (util ops t))
                (bound_value ops (int (length (assigned_tasks proc)) + 1)) = admits ops proc t"
    by (simp add: admits_def)
  show ?case
    using u b assms(1) ih
    by (simp add: utilization_Task_ok test extract_Cons_code extract_Nil_code
        split: option.splits)
qed

lemma place_task_ok:
  assumes "computable t" and "\<forall>u\<in>set (all_tasks ps). computable u"
    and "\<forall>p\<in>set ps. int (length (assigned_tasks p)) + 1 < float_limit"
  shows "place_task ops ps t = Inr (place_spec ops ps t)"
  using first_fit_ok [OF assms, of ops]
  by (simp add: place_task_def place_spec_def add_task_def Processor_init_def
      split: option.splits)

lemma all_tasks_place_spec:
  "mset (all_tasks (place_spec ops ps t)) = mset (all_tasks ps) + {#t#}"
proof (cases "List.extract (\<lambda>p. admits ops p t) ps")
  case None
  then show ?thesis by (simp add: place_spec_def all_tasks_def)
next
  case (Some r)
  obtain before p after where r: "r = (before, p, after)" by (cases r)
  with Some have "ps = before @ p # after" by (simp add: extract_Some_iff)
  with Some r show ?thesis by (simp add: place_spec_def all_tasks_def)
qed

lemma length_assigned_le:
  "p \<in> set ps \<Longrightarrow> length (assigned_tasks p) \<le> length (all_tasks ps)"
  by (induction ps) (auto simp: all_tasks_def)

lemma place_all_ok:
  assumes "\<forall>t\<in>set ts. computable t" and "\<forall>u\<in>set (all_tasks ps). computable u"
    and "int (length (all_tasks ps) + length ts) < float_limit"
  shows "place_all ops ps ts = Inr (foldl (place_spec ops) ps ts)"
  using assms
proof (induction ts arbitrary: ps)
  case Nil
  then show ?case by simp
next
  case (Cons t ts)
  have m: "mset (all_tasks (place_spec ops ps t)) = mset (all_tasks ps) + {#t#}"
    by (rule all_tasks_place_spec)
  then have "set_mset (mset (all_tasks (place_spec ops ps t))) =
               set_mset (mset (all_tasks ps) + {#t#})"
    by (rule arg_cong)
  then have s: "set (all_tasks (place_spec ops ps t)) = set (all_tasks ps) \<union> {t}"
    by simp
  from m have "size (mset (all_tasks (place_spec ops ps t))) =
                 size (mset (all_tasks ps) + {#t#})"
    by (rule arg_cong)
  then have l: "length (all_tasks (place_spec ops ps t)) = length (all_tasks ps) + 1"
    by simp
  have c: "\<forall>u\<in>set (all_tasks (place_spec ops ps t)). computable u"
    using s Cons.prems by simp
  have n: "int (length (all_tasks (place_spec ops ps t)) + length ts) < float_limit"
    using l Cons.prems(3) by simp
  have small: "\<forall>p\<in>set ps. int (length (assigned_tasks p)) + 1 < float_limit"
  proof
    fix p
    assume "p \<in> set ps"
    then have "length (assigned_tasks p) \<le> length (all_tasks ps)"
      by (rule length_assigned_le)
    with Cons.prems(3) show "int (length (assigned_tasks p)) + 1 < float_limit" by simp
  qed
  have "place_task ops ps t = Inr (place_spec ops ps t)"
    using Cons.prems small by (intro place_task_ok) simp_all
  moreover have "place_all ops (place_spec ops ps t) ts =
                   Inr (foldl (place_spec ops) (place_spec ops ps t) ts)"
    using Cons.prems c n by (intro Cons.IH) simp_all
  ultimately show ?case by simp
qed

lemma all_tasks_foldl:
  "mset (all_tasks (foldl (place_spec ops) ps ts)) = mset (all_tasks ps) + mset ts"
  by (induction ts arbitrary: ps) (simp_all add: all_tasks_place_spec)

lemma partition_ok:
  assumes "\<forall>t\<in>set tasks. computable t" and "int (length tasks) < float_limit"
  shows "partition_tasks_ff_rm ops tasks =
           Inr (foldl (place_spec ops) [Processor_init 0] (sort_key period tasks))"
  unfolding partition_tasks_ff_rm_def
  using assms by (intro place_all_ok) (simp_all add: all_tasks_def Processor_init_def)

text \<open>Conversely, a task whose utilization raises makes the partitioner raise.\<close>

lemma utilization_Task_raises: "\<not> computable t \<Longrightarrow> \<exists>e. utilization_Task ops t = Inl e"
  by (auto simp: utilization_Task_def true_div_def computable_def not_less)

lemma place_spec_nonempty: "place_spec ops ps t \<noteq> []"
  by (simp add: place_spec_def split: option.splits)

lemma place_all_raises:
  assumes "\<exists>t\<in>set ts. \<not> computable t" and "\<forall>u\<in>set (all_tasks ps). computable u"
    and "int (length (all_tasks ps) + length ts) < float_limit" and "ps \<noteq> []"
  shows "\<exists>e. place_all ops ps ts = Inl e"
  using assms
proof (induction ts arbitrary: ps)
  case Nil
  then show ?case by simp
next
  case (Cons t ts)
  show ?case
  proof (cases "computable t")
    case False
    from Cons.prems(4) obtain proc rest where ps: "ps = proc # rest" by (cases ps) auto
    with Cons.prems(2) have "utilization_Processor ops proc = Inr (proc_util ops proc)"
      by (intro utilization_Processor_ok) (simp add: all_tasks_def)
    moreover from utilization_Task_raises [OF False] obtain e where
      "utilization_Task ops t = Inl e" by blast
    ultimately have "first_fit ops t ps = Inl e" by (simp add: ps)
    then show ?thesis by (simp add: place_task_def)
  next
    case True
    have m: "mset (all_tasks (place_spec ops ps t)) = mset (all_tasks ps) + {#t#}"
      by (rule all_tasks_place_spec)
    then have "set_mset (mset (all_tasks (place_spec ops ps t))) =
                 set_mset (mset (all_tasks ps) + {#t#})"
      by (rule arg_cong)
    then have s: "set (all_tasks (place_spec ops ps t)) = set (all_tasks ps) \<union> {t}"
      by simp
    from m have "size (mset (all_tasks (place_spec ops ps t))) =
                   size (mset (all_tasks ps) + {#t#})"
      by (rule arg_cong)
    then have l: "length (all_tasks (place_spec ops ps t)) = length (all_tasks ps) + 1"
      by simp
    have c: "\<forall>u\<in>set (all_tasks (place_spec ops ps t)). computable u"
      using s Cons.prems(2) True by simp
    have n: "int (length (all_tasks (place_spec ops ps t)) + length ts) < float_limit"
      using l Cons.prems(3) by simp
    have small: "\<forall>p\<in>set ps. int (length (assigned_tasks p)) + 1 < float_limit"
    proof
      fix p
      assume "p \<in> set ps"
      then have "length (assigned_tasks p) \<le> length (all_tasks ps)"
        by (rule length_assigned_le)
      with Cons.prems(3) show "int (length (assigned_tasks p)) + 1 < float_limit" by simp
    qed
    have step: "place_task ops ps t = Inr (place_spec ops ps t)"
      using True Cons.prems(2) small by (intro place_task_ok) simp_all
    from Cons.prems(1) True have "\<exists>t\<in>set ts. \<not> computable t" by auto
    from Cons.IH [OF this c n place_spec_nonempty] step show ?thesis by simp
  qed
qed

lemma partition_raises:
  assumes "\<exists>t\<in>set tasks. \<not> computable t" and "int (length tasks) < float_limit"
  shows "\<exists>e. partition_tasks_ff_rm ops tasks = Inl e"
  unfolding partition_tasks_ff_rm_def
  using assms by (intro place_all_raises) (simp_all add: all_tasks_def Processor_init_def)

lemma distinct_concat_disjoint:
  "distinct (concat xss) \<Longrightarrow> i < j \<Longrightarrow> j < length xss \<Longrightarrow> set (xss ! i) \<inter> set (xss ! j) = {}"
proof (induction xss arbitrary: i j)
  case Nil
  then show ?case by simp
next
  case (Cons xs xss)
  then obtain j' where j: "j = Suc j'" by (cases j) auto
  show ?case
  proof (cases i)
    case 0
    from Cons.prems j have mem: "xss ! j' \<in> set xss" by simp
    from Cons.prems have "set xs \<inter> \<Union> (set ` set xss) = {}" by simp
    with mem have "set xs \<inter> set (xss ! j') = {}" by blast
    with 0 j show ?thesis by simp
  next
    case (Suc i')
    with Cons j show ?thesis by auto
  qed
qed

text \<open>The examples, evaluated in exact arithmetic.\<close>

lemma true_div_small:
  assumes "b \<noteq> 0" and "\<bar>a\<bar> \<le> \<bar>b\<bar>"
  shows "true_div ops a b = Inr (f_div_int ops a b)"
proof -
  from assms(2) have "real_of_int \<bar>a\<bar> \<le> real_of_int \<bar>b\<bar>" by (simp only: of_int_le_iff)
  with assms(1) have "\<bar>real_of_int a / real_of_int b\<bar> \<le> 1" by (simp add: field_simps)
  moreover have "(1 :: real) < real_of_int float_limit"
    using float_limit_pos by simp
  ultimately have "\<not> real_of_int float_limit \<le> \<bar>real_of_int a / real_of_int b\<bar>"
    by simp
  with assms(1) show ?thesis by (simp add: true_div_def)
qed

lemma liu_layland_bound_exact:
  assumes "0 < n" and "n < float_limit"
  shows "liu_layland_bound exact_ops n = Inr (exact_bound n)"
  using assms liu_layland_bound_returns [of n exact_ops] by (simp add: bound_value_exact)

lemma bound_exact_values:
  "liu_layland_bound exact_ops 1 = Inr 1"
  "liu_layland_bound exact_ops 2 = Inr (exact_bound 2)"
  "liu_layland_bound exact_ops 3 = Inr (exact_bound 3)"
  by (simp_all add: liu_layland_bound_exact float_limit_def bound_1)

lemma exact_ops_simps:
  "f_of_int exact_ops = real_of_int"
  "f_div_int exact_ops = (\<lambda>a b. real_of_int a / real_of_int b)"
  "f_sum exact_ops = sum_list"
  "f_add exact_ops = (+)"
  "f_le exact_ops = (\<le>)"
  by (simp_all add: exact_ops_def)

lemmas partition_eval =
  partition_tasks_ff_rm_def place_task_def utilization_Processor_def utilization_Task_def
  true_div_small add_task_def Processor_init_def bound_exact_values exact_ops_simps

text \<open>The scenario of test_ffrm.py: no two of the three tasks share a processor.\<close>

lemma test_ffrm_partition:
  "partition_tasks_ff_rm exact_ops [T1, T2, T3] =
     Inr [(Processor_init 0)\<lparr>assigned_tasks := [T1]\<rparr>,
          (Processor_init 1)\<lparr>assigned_tasks := [T2]\<rparr>,
          (Processor_init 2)\<lparr>assigned_tasks := [T3]\<rparr>]"
  using bound_2
  by (simp add: partition_eval T1_def T2_def T3_def)

lemma light_heavy_partition:
  "partition_tasks_ff_rm exact_ops [Tc, Ta, Tb] =
     Inr [(Processor_init 0)\<lparr>assigned_tasks := [Ta, Tb]\<rparr>,
          (Processor_init 1)\<lparr>assigned_tasks := [Tc]\<rparr>]"
  using bound_2 bound_3
  by (simp add: partition_eval Ta_def Tb_def Tc_def)

lemma computable_small:
  "period t \<noteq> 0 \<Longrightarrow> \<bar>execution_time t\<bar> \<le> \<bar>period t\<bar> \<Longrightarrow> computable t"
proof -
  assume p: "period t \<noteq> 0" and "\<bar>execution_time t\<bar> \<le> \<bar>period t\<bar>"
  then have "real_of_int \<bar>execution_time t\<bar> \<le> real_of_int \<bar>period t\<bar>"
    by (simp only: of_int_le_iff)
  with p have "\<bar>real_of_int (execution_time t) / real_of_int (period t)\<bar> \<le> 1"
    by (simp add: field_simps)
  moreover have "(1 :: real) < real_of_int float_limit"
    using float_limit_pos by simp
  ultimately have "\<bar>real_of_int (execution_time t) / real_of_int (period t)\<bar>
                     < real_of_int float_limit"
    by (rule le_less_trans)
  with p show ?thesis by (simp only: computable_def simp_thms)
qed

lemma examples_computable:
  "computable T1" "computable T2" "computable T3"
  "computable Ta" "computable Tb" "computable Tc"
  by (rule computable_small; simp add: T1_def T2_def T3_def Ta_def Tb_def Tc_def)+

text \<open>
  Claim C6: for every input task list on which the code returns (no period is zero, no
  quotient of execution time by period is beyond the doubles; on any other list it
  raises, \<open>partition_raises\<close>),
  \<open>partition_tasks_ff_rm\<close> returns processors whose assigned tasks, taken together, are
  the input tasks with the same multiplicities: none is dropped and none is duplicated.
  Every input task is on some processor, and when the input tasks are pairwise different
  the assigned-task lists are duplicate-free and pairwise disjoint, so each task is on
  exactly one processor. This holds whatever the float operations compute.
\<close>

theorem partition_coverage:
  assumes "\<forall>t\<in>set tasks. computable t" and "int (length tasks) < float_limit"
  shows "\<exists>ps. partition_tasks_ff_rm ops tasks = Inr ps \<and>
           mset (concat (map assigned_tasks ps)) = mset tasks \<and>
           (\<forall>t\<in>set tasks. \<exists>i<length ps. t \<in> set (assigned_tasks (ps ! i))) \<and>
           (distinct tasks \<longrightarrow>
              (\<forall>i<length ps. distinct (assigned_tasks (ps ! i))) \<and>
              (\<forall>i<length ps. \<forall>j<length ps. i \<noteq> j \<longrightarrow>
                 set (assigned_tasks (ps ! i)) \<inter> set (assigned_tasks (ps ! j)) = {}))"
proof -
  define ps where "ps = foldl (place_spec ops) [Processor_init 0] (sort_key period tasks)"
  have r: "partition_tasks_ff_rm ops tasks = Inr ps"
    unfolding ps_def by (rule partition_ok [OF assms])
  have m: "mset (concat (map assigned_tasks ps)) = mset tasks"
    using all_tasks_foldl [of ops "[Processor_init 0]" "sort_key period tasks"]
    by (simp add: ps_def all_tasks_def Processor_init_def)
  have c: "\<exists>i<length ps. t \<in> set (assigned_tasks (ps ! i))" if "t \<in> set tasks" for t
  proof -
    from that m have "t \<in> set (concat (map assigned_tasks ps))"
      by (metis set_mset_mset)
    then obtain p where "p \<in> set ps" "t \<in> set (assigned_tasks p)" by auto
    then show ?thesis by (auto simp: in_set_conv_nth)
  qed
  have d: "(\<forall>i<length ps. distinct (assigned_tasks (ps ! i))) \<and>
              (\<forall>i<length ps. \<forall>j<length ps. i \<noteq> j \<longrightarrow>
                 set (assigned_tasks (ps ! i)) \<inter> set (assigned_tasks (ps ! j)) = {})"
    if "distinct tasks"
  proof -
    from that m have dc: "distinct (concat (map assigned_tasks ps))"
      by (metis mset_eq_imp_distinct_iff)
    have d1: "distinct (assigned_tasks (ps ! i))" if "i < length ps" for i
      using dc that by (auto simp: distinct_concat_iff)
    have d2: "set (assigned_tasks (ps ! i)) \<inter> set (assigned_tasks (ps ! j)) = {}"
      if "i < length ps" "j < length ps" "i \<noteq> j" for i j
    proof (cases "i < j")
      case True
      with distinct_concat_disjoint [OF dc, of i j] that show ?thesis by simp
    next
      case False
      with that have "j < i" by simp
      with distinct_concat_disjoint [OF dc, of j i] that show ?thesis by auto
    qed
    from d1 d2 show ?thesis by blast
  qed
  from r m c d show ?thesis by blast
qed

theorem partition_coverage_witness:
  "computable T1 \<and> computable T2 \<and> computable T3 \<and>
   int (length [T1, T2, T3]) < float_limit \<and> distinct [T1, T2, T3] \<and>
   (\<exists>ps. partition_tasks_ff_rm exact_ops [T1, T2, T3] = Inr ps \<and> length ps = 3 \<and>
      mset (concat (map assigned_tasks ps)) = mset [T1, T2, T3] \<and>
      (\<forall>i<length ps. \<forall>j<length ps. i \<noteq> j \<longrightarrow>
         set (assigned_tasks (ps ! i)) \<inter> set (assigned_tasks (ps ! j)) = {}))"
proof -
  have h: "\<forall>t\<in>set [T1, T2, T3]. computable t"
    by (simp add: examples_computable)
  have n: "int (length [T1, T2, T3]) < float_limit"
    by (simp add: float_limit_def)
  have d: "distinct [T1, T2, T3]"
    by (simp add: T1_def T2_def T3_def)
  from partition_coverage [OF h n, of exact_ops] d test_ffrm_partition h n show ?thesis
    by auto
qed

text \<open>
  Claim C7: where the code returns, \<open>partition_tasks_ff_rm\<close> processes the tasks in
  ascending period order, stable for ties, and places each one by the First-Fit step
  \<open>place_spec\<close>: into the first processor, in creation order, whose current utilization
  plus the task's utilization is at most \<open>liu_layland_bound\<close> of its task count plus one,
  and otherwise into a new processor appended with id equal to the current processor
  count. Utilizations, their sum and the bound are the values the float operations of
  the runtime give, and the comparison is the runtime's: the statement holds for every
  choice of these operations, so for those of IEEE doubles.
\<close>

theorem partition_first_fit:
  assumes "\<forall>t\<in>set tasks. computable t" and "int (length tasks) < float_limit"
  shows "\<exists>sorted_tasks.
           sorted (map period sorted_tasks) \<and>
           (\<forall>k. filter (\<lambda>t. period t = k) sorted_tasks = filter (\<lambda>t. period t = k) tasks) \<and>
           partition_tasks_ff_rm ops tasks =
             Inr (foldl (place_spec ops) [Processor_init 0] sorted_tasks)"
proof (intro exI conjI)
  show "sorted (map period (sort_key period tasks))" by simp
  show "\<forall>k. filter (\<lambda>t. period t = k) (sort_key period tasks) = filter (\<lambda>t. period t = k) tasks"
    by (simp add: sort_key_stable)
  show "partition_tasks_ff_rm ops tasks =
          Inr (foldl (place_spec ops) [Processor_init 0] (sort_key period tasks))"
    by (rule partition_ok [OF assms])
qed

text \<open>The step \<open>place_spec\<close> by positions: the first admitting processor, or a new one.\<close>

lemma place_spec_cases:
  "(\<exists>i<length ps. admits ops (ps ! i) t \<and> (\<forall>j<i. \<not> admits ops (ps ! j) t) \<and>
       place_spec ops ps t =
         ps[i := (ps ! i)\<lparr>assigned_tasks := assigned_tasks (ps ! i) @ [t]\<rparr>]) \<or>
   ((\<forall>p\<in>set ps. \<not> admits ops p t) \<and>
       place_spec ops ps t =
         ps @ [\<lparr>id_Processor = length ps, assigned_tasks = [t], active_job = None,
                ready_queue = [], execution_log = []\<rparr>])"
proof (cases "List.extract (\<lambda>p. admits ops p t) ps")
  case None
  then have "\<forall>p\<in>set ps. \<not> admits ops p t" by (simp add: extract_None_iff)
  with None show ?thesis by (simp add: place_spec_def)
next
  case (Some r)
  obtain before p after where r: "r = (before, p, after)" by (cases r)
  with Some have ps: "ps = before @ p # after" and p: "admits ops p t"
    and b: "\<forall>q\<in>set before. \<not> admits ops q t"
    by (auto simp: extract_Some_iff)
  let ?i = "length before"
  have "?i < length ps" using ps by simp
  moreover have "admits ops (ps ! ?i) t" using ps p by simp
  moreover have "\<forall>j<?i. \<not> admits ops (ps ! j) t"
    using ps b by (simp add: nth_append)
  moreover have "place_spec ops ps t =
                   ps[?i := (ps ! ?i)\<lparr>assigned_tasks := assigned_tasks (ps ! ?i) @ [t]\<rparr>]"
    using Some r ps by (simp add: place_spec_def)
  ultimately show ?thesis by blast
qed

theorem partition_first_fit_witness:
  "computable Tc \<and> computable Ta \<and> computable Tb \<and>
   int (length [Tc, Ta, Tb]) < float_limit \<and>
   (\<exists>sorted_tasks.
      sorted (map period sorted_tasks) \<and>
      (\<forall>k. filter (\<lambda>t. period t = k) sorted_tasks = filter (\<lambda>t. period t = k) [Tc, Ta, Tb]) \<and>
      foldl (place_spec exact_ops) [Processor_init 0] sorted_tasks =
        [(Processor_init 0)\<lparr>assigned_tasks := [Ta, Tb]\<rparr>,
         (Processor_init 1)\<lparr>assigned_tasks := [Tc]\<rparr>])"
proof -
  have h: "\<forall>t\<in>set [Tc, Ta, Tb]. computable t"
    by (simp add: examples_computable)
  have n: "int (length [Tc, Ta, Tb]) < float_limit"
    by (simp add: float_limit_def)
  from partition_first_fit [OF h n, of exact_ops] light_heavy_partition h n show ?thesis
    by auto
qed

subsection \<open>The simulation\<close>

text \<open>Rounding and the tolerance at whole numbers, for evaluating runs.\<close>

lemma fl_Ints:
  assumes "x \<in> \<int>" and "\<bar>x\<bar> \<le> 9007199254740992"
  shows "fl x = x"
proof -
  from assms(1) obtain k where k: "x = of_int k" by (rule Ints_cases)
  with assms(2) have "\<bar>real_of_int k\<bar> \<le> real_of_int 9007199254740992" by simp
  then have "real_of_int \<bar>k\<bar> \<le> real_of_int 9007199254740992" by simp
  then have "\<bar>k\<bar> \<le> 9007199254740992" by (simp only: of_int_le_iff)
  with k show ?thesis by (simp only: fl_of_int)
qed

lemma fl_numeral:
  "(numeral n :: int) \<le> 9007199254740992 \<Longrightarrow> fl (numeral n) = numeral n"
  using fl_of_int [of "numeral n"] by simp

lemma fl_neg_numeral:
  "(numeral n :: int) \<le> 9007199254740992 \<Longrightarrow> fl (- numeral n) = - numeral n"
  using fl_of_int [of "- numeral n"] by simp

lemma fl_one: "fl 1 = 1"
  using fl_of_int [of 1] by simp

lemma fl_neg_one: "fl (- 1) = - 1"
  using fl_of_int [of "- 1"] by simp

lemma epsilon_numeral:
  "0 < epsilon" "0 \<le> epsilon" "\<not> 1 \<le> epsilon" "\<not> 1 < epsilon"
  "\<not> numeral n \<le> epsilon" "\<not> numeral n < epsilon"
  "- 1 \<le> epsilon" "- numeral n \<le> epsilon"
  using epsilon_bounds one_le_numeral [of n, where ?'a = real] by linarith+

lemmas fl_eval = fl_zero fl_one fl_neg_one fl_numeral fl_neg_numeral epsilon_numeral

text \<open>
  Claim C10: for every processor list and every \<open>max_time \<le> 0\<close>, \<open>run_simulation\<close>
  returns, and the processors are exactly as they were on entry: no job is created and
  nothing is logged.
\<close>

theorem run_simulation_nonpositive_horizon:
  "max_time \<le> 0 \<Longrightarrow> run_simulation ps max_time = Some ps"
  by (simp add: run_simulation_def sim_loop.simps init_state_def)

theorem run_simulation_nonpositive_horizon_witness:
  "run_simulation [Processor_init 0] 0 = Some [Processor_init 0]"
  using run_simulation_nonpositive_horizon [of 0 "[Processor_init 0]"] by simp

lemma foldl_min_upd_None: "foldl min_upd acc xs = None \<longleftrightarrow> acc = None \<and> xs = []"
proof (induction xs arbitrary: acc)
  case Nil
  then show ?case by simp
next
  case (Cons x xs)
  then show ?case by (cases acc) simp_all
qed

lemma foldl_min_upd_le:
  "foldl min_upd acc xs = Some r \<Longrightarrow> (\<forall>x\<in>set xs. r \<le> x) \<and> (\<forall>m. acc = Some m \<longrightarrow> r \<le> m)"
proof (induction xs arbitrary: acc)
  case Nil
  then show ?case by simp
next
  case (Cons x xs)
  show ?case
  proof (cases acc)
    case None
    with Cons.prems have "foldl min_upd (Some x) xs = Some r" by simp
    from Cons.IH [OF this] None show ?thesis by simp
  next
    case (Some m)
    with Cons.prems have "foldl min_upd (Some (if x < m then x else m)) xs = Some r"
      by (simp split: if_splits)
    from Cons.IH [OF this] Some show ?thesis by (auto split: if_splits)
  qed
qed

lemma foldl_min_upd_mem:
  "foldl min_upd acc xs = Some r \<Longrightarrow> r \<in> set xs \<or> acc = Some r"
proof (induction xs arbitrary: acc)
  case Nil
  then show ?case by simp
next
  case (Cons x xs)
  show ?case
  proof (cases acc)
    case None
    with Cons.prems have "foldl min_upd (Some x) xs = Some r" by simp
    from Cons.IH [OF this] show ?thesis by auto
  next
    case (Some m)
    with Cons.prems have "foldl min_upd (Some (if x < m then x else m)) xs = Some r"
      by (simp split: if_splits)
    from Cons.IH [OF this] Some show ?thesis by (auto split: if_splits)
  qed
qed

lemma next_arrival_fold: "next_arrival st = foldl min_upd None (arrival_times st)"
  by (simp add: next_arrival_def arrival_times_def)

lemma completion_fold:
  "foldl (\<lambda>nc proc. case active_job proc of
                      None \<Rightarrow> nc
                    | Some j \<Rightarrow> min_upd nc (fl (c + remaining_time j))) acc ps =
   foldl min_upd acc
     (concat (map (\<lambda>proc. case active_job proc of
                             None \<Rightarrow> []
                           | Some j \<Rightarrow> [fl (c + remaining_time j)]) ps))"
  by (induction ps arbitrary: acc) (simp_all split: option.splits)

lemma next_completion_fold: "next_completion st = foldl min_upd None (completion_times st)"
  by (simp add: next_completion_def completion_times_def completion_fold)

lemma min_inf_None: "min_inf a b = None \<longleftrightarrow> a = None \<and> b = None"
  by (cases a; cases b) simp_all

lemma min_inf_Some:
  "min_inf a b = Some e \<Longrightarrow>
   (a = Some e \<or> b = Some e) \<and> (\<forall>x. a = Some x \<longrightarrow> e \<le> x) \<and> (\<forall>x. b = Some x \<longrightarrow> e \<le> x)"
  by (cases a; cases b) (auto split: if_splits)

lemma next_event_time_cases:
  assumes "current_time st < real_of_int T"
  shows "\<exists>net. next_event_time T st = Some net \<and> net \<le> real_of_int T \<and>
           (\<forall>a\<in>set (arrival_times st). net \<le> a) \<and>
           (\<forall>c\<in>set (completion_times st). net \<le> c) \<and>
           (net = real_of_int T \<or> net \<in> set (arrival_times st) \<or> net \<in> set (completion_times st))"
proof (cases "min_inf (next_arrival st) (next_completion st)")
  case None
  then have "arrival_times st = []" "completion_times st = []"
    by (simp_all add: min_inf_None next_arrival_fold next_completion_fold foldl_min_upd_None)
  with None assms show ?thesis by (simp add: next_event_time_def)
next
  case (Some e)
  have le_a: "\<forall>a\<in>set (arrival_times st). e \<le> a"
  proof
    fix a assume a: "a \<in> set (arrival_times st)"
    then obtain m where m: "next_arrival st = Some m"
      using foldl_min_upd_None [of None "arrival_times st"]
      by (cases "next_arrival st") (auto simp: next_arrival_fold)
    with foldl_min_upd_le [of None "arrival_times st" m] a have "m \<le> a"
      by (simp add: next_arrival_fold)
    moreover from min_inf_Some [OF Some] m have "e \<le> m" by simp
    ultimately show "e \<le> a" by simp
  qed
  have le_c: "\<forall>c\<in>set (completion_times st). e \<le> c"
  proof
    fix c assume c: "c \<in> set (completion_times st)"
    then obtain m where m: "next_completion st = Some m"
      using foldl_min_upd_None [of None "completion_times st"]
      by (cases "next_completion st") (auto simp: next_completion_fold)
    with foldl_min_upd_le [of None "completion_times st" m] c have "m \<le> c"
      by (simp add: next_completion_fold)
    moreover from min_inf_Some [OF Some] m have "e \<le> m" by simp
    ultimately show "e \<le> c" by simp
  qed
  have mem: "e \<in> set (arrival_times st) \<or> e \<in> set (completion_times st)"
    using min_inf_Some [OF Some]
      foldl_min_upd_mem [of None "arrival_times st" e]
      foldl_min_upd_mem [of None "completion_times st" e]
    by (auto simp: next_arrival_fold next_completion_fold)
  show ?thesis
  proof (cases "real_of_int T < e")
    case True
    with Some assms have "next_event_time T st = Some (real_of_int T)"
      by (simp add: next_event_time_def)
    with True le_a le_c show ?thesis by fastforce
  next
    case False
    with Some have "next_event_time T st = Some e"
      by (simp add: next_event_time_def)
    with False le_a le_c mem show ?thesis by simp
  qed
qed

lemma sim_steps_reachable:
  "reachable ps T st \<Longrightarrow> sim_steps n T st = Some st' \<Longrightarrow> reachable ps T st'"
proof (induction n arbitrary: st)
  case 0
  then show ?case by simp
next
  case (Suc n)
  from Suc.prems(2) obtain st1 where lt: "current_time st < real_of_int T"
    and s1: "sim_step T st = Some st1" and rest: "sim_steps n T st1 = Some st'"
    by (auto split: if_splits option.splits)
  from Suc.prems(1) lt s1 have "reachable ps T st1" by (rule reach_step)
  from Suc.IH [OF this rest] show ?case .
qed

lemma sim_steps_loop:
  "sim_steps n T st = Some st' \<Longrightarrow> \<not> current_time st' < real_of_int T \<Longrightarrow>
   sim_loop T st = Some st'"
proof (induction n arbitrary: st)
  case 0
  then show ?case by (simp add: sim_loop.simps)
next
  case (Suc n)
  from Suc.prems(1) obtain st1 where lt: "current_time st < real_of_int T"
    and s1: "sim_step T st = Some st1" and rest: "sim_steps n T st1 = Some st'"
    by (auto split: if_splits option.splits)
  from Suc.IH [OF rest Suc.prems(2)] lt s1 show ?case
    by (subst sim_loop.simps) simp
qed

lemmas sim_eval =
  init_state_def init_arrivals_def dict_insert_def init_counters_def
  sim_step_def events_step_def next_event_time_def capped_def as_float_def
  next_arrival_def next_completion_def
  advance_def log_execution_def complete_def counter_def new_job_def
  dispatch_def preempt_def select_job_def sort_ready_queue_def
  add_task_def Processor_init_def fl_eval

lemmas ex_eval = cpu_AB_def task_A_def task_B_def eval_nat_numeral






text \<open>
  Claim C5, as stated: after the reorder of every dispatch step, jobs of equal period
  stand in arrival order. On one processor with A (period 4, execution time 4) and
  B (period 2, execution time 1), the first job of A is running at time 4 when the
  second job of A and a job of B arrive; B preempts, the running job is appended behind
  the new arrivals, and the stable sort leaves the job of A that arrived at 4 ahead of
  the one that arrived at 0.
\<close>

theorem arrival_order_counterexample:
  "\<exists>st ev. reachable [cpu_AB] 4 st \<and> current_time st < 4 \<and> events_step 4 st = Some ev \<and>
      map (\<lambda>j. (id_Task (task j), period (task j), arrival_time j))
          (ready_queue (sort_ready_queue (preempt (hd (processors ev))))) =
        [(''B'', 2, 4), (''A'', 4, 4), (''A'', 4, 0)] \<and>
      \<not> arrival_ordered (ready_queue (sort_ready_queue (preempt (hd (processors ev)))))"
proof -
  define st where "st = the (sim_steps 4 4 (init_state [cpu_AB]))"
  define ev where "ev = the (events_step 4 st)"
  have st: "sim_steps 4 4 (init_state [cpu_AB]) = Some st"
    by (simp add: st_def sim_eval ex_eval)
  from sim_steps_reachable [OF reach_init st] have r: "reachable [cpu_AB] 4 st" .
  have lt: "current_time st < 4"
    by (simp add: st_def sim_eval ex_eval)
  have ev: "events_step 4 st = Some ev"
    by (simp add: ev_def st_def sim_eval ex_eval)
  have q: "map (\<lambda>j. (id_Task (task j), period (task j), arrival_time j))
          (ready_queue (sort_ready_queue (preempt (hd (processors ev))))) =
        [(''B'', 2, 4), (''A'', 4, 4), (''A'', 4, 0)]"
    by (simp add: ev_def st_def sim_eval ex_eval)
  have n: "\<not> arrival_ordered (ready_queue (sort_ready_queue (preempt (hd (processors ev)))))"
    by (simp add: arrival_ordered_def ev_def st_def sim_eval ex_eval)
  show ?thesis
    by (rule exI [of _ st], rule exI [of _ ev]) (simp only: r lt ev q n simp_thms)
qed

text \<open>
  Claim C5, amended: after the reorder the ready queue is sorted ascending by task
  period, holds the same jobs, and among jobs of equal period keeps the order they had
  in the queue before the reorder (new arrivals in arrival order, a preempted job behind
  them).
\<close>

theorem sort_ready_queue_stable:
  "sorted (map (\<lambda>j. period (task j)) (ready_queue (sort_ready_queue proc))) \<and>
   (\<forall>k. filter (\<lambda>j. period (task j) = k) (ready_queue (sort_ready_queue proc)) =
        filter (\<lambda>j. period (task j) = k) (ready_queue proc)) \<and>
   mset (ready_queue (sort_ready_queue proc)) = mset (ready_queue proc)"
  by (simp add: sort_ready_queue_def sort_key_stable)

subsection \<open>The loop invariant for valid, small input\<close>

lemma Ints_gap:
  fixes x y :: real
  assumes "x \<in> \<int>" and "y \<in> \<int>" and "x < y"
  shows "x + 1 \<le> y"
proof -
  from assms(1) obtain a where a: "x = of_int a" by (rule Ints_cases)
  from assms(2) obtain b where b: "y = of_int b" by (rule Ints_cases)
  from assms(3) a b have "a < b" by simp
  then have "a + 1 \<le> b" by simp
  then have "(of_int (a + 1) :: real) \<le> of_int b" by (simp only: of_int_le_iff)
  with a b show ?thesis by simp
qed

lemma fl_Ints_nonneg:
  assumes "x \<in> \<int>" and "0 \<le> x" and "x \<le> 9007199254740992"
  shows "fl x = x"
  using assms by (intro fl_Ints) simp_all

lemma as_float_id:
  assumes "x \<in> \<int>" and "0 \<le> x" and "x \<le> 9007199254740992"
  shows "as_float c x = x"
  using fl_Ints_nonneg [OF assms] by (simp add: as_float_def)

lemma task_ok_bounds:
  assumes "task_ok T t" and "0 \<le> T"
  shows "1 \<le> real_of_int (period t)"
    and "real_of_int T + real_of_int (period t) \<le> 9007199254740992"
    and "1 \<le> real_of_int (execution_time t)"
    and "real_of_int T + real_of_int (execution_time t) \<le> 9007199254740992"
    and "real_of_int (period t) \<le> 9007199254740992"
    and "real_of_int (execution_time t) \<le> 9007199254740992"
  using assms unfolding task_ok_def valid_task_def small_task_def by linarith+

lemma fl_period:
  assumes "task_ok T t" and "0 \<le> T"
  shows "fl (real_of_int (period t)) = real_of_int (period t)"
  using task_ok_bounds [OF assms] by (intro fl_Ints_nonneg) simp_all

lemma fl_execution_time:
  assumes "task_ok T t" and "0 \<le> T"
  shows "fl (real_of_int (execution_time t)) = real_of_int (execution_time t)"
  using task_ok_bounds [OF assms] by (intro fl_Ints_nonneg) simp_all

lemma log_ok_mono: "log_ok t entries \<Longrightarrow> t \<le> t' \<Longrightarrow> log_ok t' entries"
  by (auto simp: log_ok_def list_all_iff)

lemma log_ok_execution:
  assumes "log_ok ct entries" and "ct < net"
  shows "log_ok net (log_execution ct net tid entries)"
proof (cases entries rule: rev_cases)
  case Nil
  with assms show ?thesis by (simp add: log_ok_def log_execution_def)
next
  case (snoc xs e)
  obtain s f k where e: "e = (s, f, k)" by (cases e)
  from assms(1) snoc e have old: "list_all (\<lambda>e. fst e < fst (snd e) \<and> fst (snd e) \<le> ct) xs"
    "s < f" "f \<le> ct" "successively follows xs" "xs = [] \<or> follows (last xs) (s, f, k)"
    by (auto simp: log_ok_def successively_append_iff)
  from old(1) assms(2) have xs': "list_all (\<lambda>e. fst e < fst (snd e) \<and> fst (snd e) \<le> net) xs"
    by (auto simp: list_all_iff)
  show ?thesis
  proof (cases "k = tid \<and> f = ct")
    case True
    with snoc e have "log_execution ct net tid entries = xs @ [(s, net, k)]"
      by (simp add: log_execution_def)
    moreover from old(5) have "xs = [] \<or> follows (last xs) (s, net, k)"
      by (auto simp: follows_def)
    ultimately show ?thesis
      using xs' old assms(2) by (auto simp: log_ok_def successively_append_iff)
  next
    case False
    with snoc e have "log_execution ct net tid entries = (xs @ [(s, f, k)]) @ [(ct, net, tid)]"
      by (auto simp: log_execution_def)
    moreover from False old(3) have "follows (s, f, k) (ct, net, tid)"
      by (auto simp: follows_def)
    ultimately show ?thesis
      using xs' old assms(2) by (auto simp: log_ok_def successively_append_iff)
  qed
qed

lemma proc_ok_complete: "proc_ok T t proc \<Longrightarrow> proc_ok T t (complete proc)"
  by (auto simp: proc_ok_def complete_def jobs_of_def split: option.splits)

lemma proc_ok_advance_complete:
  assumes "proc_ok T ct proc" and "ct \<in> \<int>" and "net \<in> \<int>" and "ct < net" and "0 \<le> T"
    and "\<forall>a. active_job proc = Some a \<longrightarrow> net \<le> ct + remaining_time a"
  shows "proc_ok T net (complete (advance ct net (net - ct) proc))"
proof (cases "active_job proc")
  case None
  with assms(1,4) show ?thesis
    by (auto simp: advance_def complete_def proc_ok_def intro: log_ok_mono)
next
  case (Some a)
  from assms(1) Some have a: "remaining_time a \<in> \<int>"
    and tk: "task_ok T (task a)"
    and up: "remaining_time a \<le> real_of_int (execution_time (task a))"
    and q: "list_all (good_job T) (ready_queue proc)"
    and l: "log_ok ct (execution_log proc)"
    by (simp_all add: proc_ok_def jobs_of_def good_job_def)
  from a assms(2,3) have r: "remaining_time a - (net - ct) \<in> \<int>" by simp
  from assms(6) Some have nn: "0 \<le> remaining_time a - (net - ct)" by simp
  from assms(4) up have le: "remaining_time a - (net - ct) \<le> real_of_int (execution_time (task a))"
    by simp
  with task_ok_bounds(6) [OF tk assms(5)]
  have "remaining_time a - (net - ct) \<le> 9007199254740992" by linarith
  with r nn have flr: "fl (remaining_time a - (net - ct)) = remaining_time a - (net - ct)"
    by (intro fl_Ints_nonneg)
  from l assms(4) have l': "log_ok net (log_execution ct net (id_Task (task a)) (execution_log proc))"
    by (rule log_ok_execution)
  show ?thesis
    using Some q r nn le tk l' epsilon_bounds flr
    by (auto simp: advance_def complete_def proc_ok_def jobs_of_def good_job_def)
qed

lemma jobs_of_preempt: "set (jobs_of (preempt proc)) = set (jobs_of proc)"
  by (auto simp: preempt_def jobs_of_def split: option.splits)

lemma jobs_of_sort: "set (jobs_of (sort_ready_queue proc)) = set (jobs_of proc)"
  by (simp add: sort_ready_queue_def jobs_of_def)

lemma jobs_of_select: "set (jobs_of (select_job proc)) = set (jobs_of proc)"
  by (auto simp: select_job_def jobs_of_def split: option.splits list.splits)

lemma jobs_of_dispatch: "set (jobs_of (dispatch proc)) = set (jobs_of proc)"
  by (simp add: dispatch_def jobs_of_select jobs_of_sort jobs_of_preempt)

lemma log_dispatch: "execution_log (dispatch proc) = execution_log proc"
  by (simp add: dispatch_def select_job_def sort_ready_queue_def preempt_def
      split: option.splits list.splits)

lemma proc_ok_dispatch: "proc_ok T t proc \<Longrightarrow> proc_ok T t (dispatch proc)"
  using jobs_of_dispatch [of proc] by (simp add: proc_ok_def list_all_iff log_dispatch)

lemma good_new_job:
  assumes "task_ok T t" and "0 \<le> T"
  shows "good_job T (new_job c t n ct)"
  using assms task_ok_bounds(3) [OF assms] fl_execution_time [OF assms]
  by (simp add: good_job_def new_job_def)

lemma handle_arrivals_ok:
  assumes "handle_arrivals c net d q jc = (d', q', jc')"
    and "arrivals_ok T net d" and "list_all (good_job T) q"
    and "net \<in> \<int>" and "0 \<le> net" and "net \<le> real_of_int T" and "T \<le> 9007199254740992"
  shows "arrivals_ok T net d' \<and> list_all (\<lambda>(k, a). net < a) d' \<and>
         list_all (good_job T) q' \<and> length d' = length d"
  using assms(1,2,3)
proof (induction d arbitrary: q jc d' q' jc')
  case Nil
  then show ?case by (simp add: arrivals_ok_def)
next
  case (Cons x d)
  obtain t a where x: "x = (t, a)" by (cases x)
  from assms(5,6) have T0: "0 \<le> T" by linarith
  from assms(6,7) have netN: "net \<le> 9007199254740992" by linarith
  have af: "as_float c net = net"
    using assms(4,5) netN by (rule as_float_id)
  from Cons.prems(2) x have va: "task_ok T t" "a \<in> \<int>" "net \<le> a"
    and au: "a \<le> real_of_int (T + period t)" and rest: "arrivals_ok T net d"
    by (simp_all add: arrivals_ok_def)
  have b: "1 \<le> real_of_int (period t)"
    "real_of_int T + real_of_int (period t) \<le> 9007199254740992"
    using task_ok_bounds [OF va(1) T0] by simp_all
  have "a - net \<in> \<int>" using va(2) assms(4) by simp
  moreover have "0 \<le> a - net" using va(3) by simp
  moreover have "a - net \<le> 9007199254740992" using au b(2) assms(5) by simp
  ultimately have fd: "fl (a - net) = a - net" by (rule fl_Ints_nonneg)
  show ?case
  proof (cases "\<bar>fl (a - as_float c net)\<bar> < epsilon")
    case True
    with af fd va(3) epsilon_bounds have "a - net < 1" by simp
    with Ints_gap [OF assms(4) va(2)] va(3) have an: "a = net" by (cases "net < a") simp_all
    obtain r1 r2 r3 where r: "handle_arrivals c net d (q @ [new_job c t (counter jc (id_Task t)) net])
        (jc(id_Task t \<mapsto> counter jc (id_Task t) + 1)) = (r1, r2, r3)"
      by (cases "handle_arrivals c net d (q @ [new_job c t (counter jc (id_Task t)) net])
        (jc(id_Task t \<mapsto> counter jc (id_Task t) + 1))")
    from Cons.prems(3) va(1) T0
    have "list_all (good_job T) (q @ [new_job c t (counter jc (id_Task t)) net])"
      by (simp add: good_new_job)
    from Cons.IH [OF r rest this]
    have ih: "arrivals_ok T net r1" "list_all (\<lambda>(k, a). net < a) r1" "list_all (good_job T) r2"
      "length r1 = length d" by simp_all
    from Cons.prems(1) x True r
    have res: "d' = (t, fl (a + fl (real_of_int (period t)))) # r1" "q' = r2" by simp_all
    have "a + real_of_int (period t) \<in> \<int>" using va(2) by simp
    moreover have "0 \<le> a + real_of_int (period t)" using an assms(5) b(1) by simp
    moreover have "a + real_of_int (period t) \<le> 9007199254740992"
      using an assms(6) b(2) by simp
    ultimately have "fl (a + real_of_int (period t)) = a + real_of_int (period t)"
      by (rule fl_Ints_nonneg)
    with fl_period [OF va(1) T0]
    have next_a: "fl (a + fl (real_of_int (period t))) = net + real_of_int (period t)"
      using an by simp
    have "net < net + real_of_int (period t)" "net + real_of_int (period t) \<in> \<int>"
      "net + real_of_int (period t) \<le> real_of_int (T + period t)"
      using b(1) assms(4,6) by simp_all
    with ih res va next_a show ?thesis by (simp add: arrivals_ok_def)
  next
    case False
    obtain r1 r2 r3 where r: "handle_arrivals c net d q jc = (r1, r2, r3)"
      by (cases "handle_arrivals c net d q jc")
    from Cons.IH [OF r rest Cons.prems(3)]
    have ih: "arrivals_ok T net r1" "list_all (\<lambda>(k, a). net < a) r1" "list_all (good_job T) r2"
      "length r1 = length d" by simp_all
    from Cons.prems(1) x False r have res: "d' = (t, a) # r1" "q' = r2" by simp_all
    from False af fd va(3) epsilon_bounds have "net < a" by (cases "a = net") simp_all
    with ih res va au show ?thesis by (simp add: arrivals_ok_def)
  qed
qed

lemma proc_ok_queue:
  "proc_ok T t proc \<Longrightarrow> list_all (good_job T) q \<Longrightarrow> proc_ok T t (proc\<lparr>ready_queue := q\<rparr>)"
  by (simp add: proc_ok_def jobs_of_def)

lemma proc_ok_ready: "proc_ok T t proc \<Longrightarrow> list_all (good_job T) (ready_queue proc)"
  by (simp add: proc_ok_def jobs_of_def)

lemma arrivals_all_ok:
  assumes "length ps = length ds"
    and "arrivals_all c net ps ds jc = (ps', ds', jc')"
    and "list_all (arrivals_ok T net) ds" and "list_all (proc_ok T net) ps"
    and "net \<in> \<int>" and "0 \<le> net" and "net \<le> real_of_int T" and "T \<le> 9007199254740992"
  shows "length ps' = length ps \<and> length ds' = length ds \<and>
         list_all (arrivals_ok T net) ds' \<and> list_all (list_all (\<lambda>(k, a). net < a)) ds' \<and>
         list_all (proc_ok T net) ps'"
  using assms(1,2,3,4)
proof (induction ps ds arbitrary: jc ps' ds' jc' rule: list_induct2)
  case Nil
  then show ?case by simp
next
  case (Cons proc ps d ds)
  obtain d1 q1 jc1 where h: "handle_arrivals c net d (ready_queue proc) jc = (d1, q1, jc1)"
    by (cases "handle_arrivals c net d (ready_queue proc) jc")
  obtain ps2 ds2 jc2 where r: "arrivals_all c net ps ds jc1 = (ps2, ds2, jc2)"
    by (cases "arrivals_all c net ps ds jc1")
  from Cons.prems have p: "proc_ok T net proc" "list_all (proc_ok T net) ps"
    and a: "arrivals_ok T net d" "list_all (arrivals_ok T net) ds" by simp_all
  from handle_arrivals_ok [OF h a(1) proc_ok_ready [OF p(1)] assms(5,6,7,8)]
  have h': "arrivals_ok T net d1" "list_all (\<lambda>(k, a). net < a) d1" "list_all (good_job T) q1"
    by simp_all
  from Cons.IH [OF r a(2) p(2)]
  have ih: "length ps2 = length ps" "length ds2 = length ds" "list_all (arrivals_ok T net) ds2"
    "list_all (list_all (\<lambda>(k, a). net < a)) ds2" "list_all (proc_ok T net) ps2" by simp_all
  from Cons.prems(1) h r have res: "ps' = proc\<lparr>ready_queue := q1\<rparr> # ps2" "ds' = d1 # ds2"
    by simp_all
  from res ih h' p(1) show ?case by (simp add: proc_ok_queue)
qed

lemma arrival_times_ok:
  "list_all (arrivals_ok T t) ds \<Longrightarrow> a \<in> set (concat (map (map snd) ds)) \<Longrightarrow> a \<in> \<int> \<and> t \<le> a"
  by (fastforce simp: list_all_iff arrivals_ok_def)

lemma arrivals_ok_lower:
  "list_all (arrivals_ok T t) ds \<Longrightarrow> \<forall>a\<in>set (concat (map (map snd) ds)). t' \<le> a \<Longrightarrow>
   list_all (arrivals_ok T t') ds"
  by (fastforce simp: list_all_iff arrivals_ok_def)

lemma arrival_times_strict:
  "list_all (list_all (\<lambda>(k, a). t < a)) ds \<Longrightarrow> list_all (\<lambda>a. t < a) (concat (map (map snd) ds))"
  by (fastforce simp: list_all_iff)

lemma active_completion:
  "proc \<in> set (processors st) \<Longrightarrow> active_job proc = Some a \<Longrightarrow>
   fl (current_time st + remaining_time a) \<in> set (completion_times st)"
  by (force simp: completion_times_def)

lemma completion_exact:
  assumes "proc_ok T ct proc" and "active_job proc = Some a"
    and "ct \<in> \<int>" and "0 \<le> ct" and "ct \<le> real_of_int T"
  shows "fl (ct + remaining_time a) = ct + remaining_time a"
    and "remaining_time a \<in> \<int>" and "1 \<le> remaining_time a"
proof -
  from assms(1,2) have g: "good_job T a"
    by (simp add: proc_ok_def jobs_of_def)
  from assms(4,5) have T0: "0 \<le> T" by linarith
  from g show i: "remaining_time a \<in> \<int>" by (simp add: good_job_def)
  from g i Ints_gap [of 0 "remaining_time a"] show one: "1 \<le> remaining_time a"
    by (simp add: good_job_def)
  from g have "task_ok T (task a)"
    "remaining_time a \<le> real_of_int (execution_time (task a))"
    by (simp_all add: good_job_def)
  with task_ok_bounds(4) [OF this(1) T0] assms(5)
  have "ct + remaining_time a \<le> 9007199254740992" by linarith
  moreover have "ct + remaining_time a \<in> \<int>" using i assms(3) by simp
  moreover have "0 \<le> ct + remaining_time a" using one assms(4) by simp
  ultimately show "fl (ct + remaining_time a) = ct + remaining_time a"
    by (intro fl_Ints_nonneg)
qed

lemma completion_times_ok:
  assumes "list_all (proc_ok T (current_time st)) (processors st)"
    and "current_time st \<in> \<int>" and "0 \<le> current_time st"
    and "current_time st \<le> real_of_int T"
    and "c \<in> set (completion_times st)"
  shows "c \<in> \<int> \<and> current_time st + 1 \<le> c"
proof -
  from assms(5) obtain proc a where pa: "proc \<in> set (processors st)" "active_job proc = Some a"
    "c = fl (current_time st + remaining_time a)"
    by (auto simp: completion_times_def split: option.splits) metis
  with assms(1) have "proc_ok T (current_time st) proc"
    by (simp add: list_all_iff)
  from completion_exact [OF this pa(2) assms(2,3,4)] pa(3) assms(2) show ?thesis by simp
qed

lemma sim_step_inv:
  assumes inv: "sim_inv T st" and lt: "current_time st < real_of_int T"
  shows "\<exists>st'. sim_step T st = Some st' \<and> sim_inv_strict T st' \<and>
           current_time st \<le> current_time st' \<and> current_time st' \<le> real_of_int T \<and>
           (sim_inv_strict T st \<longrightarrow> current_time st + 1 \<le> current_time st')"
proof -
  define ct where "ct = current_time st"
  from inv have ct: "ct \<in> \<int>" and ct0: "0 \<le> ct" and ctT: "ct \<le> real_of_int T"
    and TN: "T \<le> 9007199254740992"
    and len: "length (task_next_arrival st) = length (processors st)"
    and arr: "list_all (arrivals_ok T ct) (task_next_arrival st)"
    and prc: "list_all (proc_ok T ct) (processors st)"
    by (simp_all add: sim_inv_def ct_def)
  from ct0 ctT have T0: "0 \<le> T" by linarith
  from TN have TN': "real_of_int T \<le> 9007199254740992" by linarith
  from next_event_time_cases [OF lt] obtain net where
    net: "next_event_time T st = Some net" and netT: "net \<le> real_of_int T"
    and net_a: "\<forall>a\<in>set (arrival_times st). net \<le> a"
    and net_c: "\<forall>c\<in>set (completion_times st). net \<le> c"
    and net_mem: "net = real_of_int T \<or> net \<in> set (arrival_times st) \<or>
                  net \<in> set (completion_times st)"
    by blast
  have a_ok: "a \<in> \<int> \<and> ct \<le> a" if "a \<in> set (arrival_times st)" for a
    using arrival_times_ok [OF arr] that by (simp add: arrival_times_def)
  have c_ok: "c \<in> \<int> \<and> ct + 1 \<le> c" if "c \<in> set (completion_times st)" for c
    using completion_times_ok [of T st c] prc ct ct0 ctT that by (simp add: ct_def)
  have net_int: "net \<in> \<int>"
    using net_mem a_ok c_ok by auto
  have ge: "ct \<le> net"
  proof -
    have "ct \<le> c" if "c \<in> set (completion_times st)" for c
      using c_ok [OF that] by simp
    with net_mem a_ok lt show ?thesis by (auto simp: ct_def)
  qed
  from ge ct0 have net0: "0 \<le> net" by simp
  from netT TN' have netN: "net \<le> 9007199254740992" by simp
  have strict_gap: "ct + 1 \<le> net" if "sim_inv_strict T st"
  proof -
    from that have "\<forall>a\<in>set (arrival_times st). ct < a"
      by (simp add: sim_inv_strict_def list_all_iff ct_def)
    with a_ok ct have "\<forall>a\<in>set (arrival_times st). ct + 1 \<le> a"
      by (auto intro: Ints_gap)
    moreover from lt ct have "ct + 1 \<le> real_of_int T"
      by (intro Ints_gap) (simp_all add: ct_def)
    ultimately show ?thesis using net_mem c_ok by auto
  qed
  define c where "c = capped T st"
  define dt where "dt = fl (as_float c net - current_time st)"
  have "net - ct \<in> \<int>" using net_int ct by simp
  moreover have "0 \<le> net - ct" using ge by simp
  moreover have "net - ct \<le> 9007199254740992" using netN ct0 by simp
  ultimately have "fl (net - ct) = net - ct" by (rule fl_Ints_nonneg)
  with as_float_id [OF net_int net0 netN, of c] have dt: "dt = net - ct"
    by (simp add: dt_def ct_def)
  define ps1 where "ps1 = (if dt > 0
                           then map (advance (current_time st) net dt) (processors st)
                           else processors st)"
  define ps2 where "ps2 = map complete ps1"
  have ps2_ok: "list_all (proc_ok T net) ps2"
  proof (cases "ct < net")
    case True
    have "proc_ok T net (complete (advance ct net (net - ct) proc))"
      if "proc \<in> set (processors st)" for proc
    proof -
      from that prc have p: "proc_ok T ct proc" by (simp add: list_all_iff)
      have "\<forall>a. active_job proc = Some a \<longrightarrow> net \<le> ct + remaining_time a"
      proof (intro allI impI)
        fix a
        assume a: "active_job proc = Some a"
        from active_completion [OF that a] net_c
        have "net \<le> fl (current_time st + remaining_time a)" by simp
        with completion_exact(1) [OF p a ct ct0 ctT] show "net \<le> ct + remaining_time a"
          by (simp add: ct_def)
      qed
      with p show ?thesis using ct net_int True T0 by (intro proc_ok_advance_complete)
    qed
    with True dt show ?thesis by (simp add: ps2_def ps1_def list_all_iff ct_def)
  next
    case False
    with ge have "net = ct" by simp
    with prc dt show ?thesis by (simp add: ps2_def ps1_def list_all_iff proc_ok_complete ct_def)
  qed
  have len2: "length ps2 = length (task_next_arrival st)"
    by (simp add: ps2_def ps1_def len)
  from arr net_a have arr': "list_all (arrivals_ok T net) (task_next_arrival st)"
    by (intro arrivals_ok_lower [OF arr]) (simp add: arrival_times_def)
  obtain ps3 tna jc where
    r: "arrivals_all c net ps2 (task_next_arrival st) (job_counters st) = (ps3, tna, jc)"
    by (cases "arrivals_all c net ps2 (task_next_arrival st) (job_counters st)")
  from arrivals_all_ok [OF len2 r arr' ps2_ok net_int net0 netT TN]
  have res: "length ps3 = length ps2" "length tna = length (task_next_arrival st)"
    "list_all (arrivals_ok T net) tna" "list_all (list_all (\<lambda>(k, a). net < a)) tna"
    "list_all (proc_ok T net) ps3" by simp_all
  define st' where "st' = \<lparr>current_time = net, processors = map dispatch ps3,
                           task_next_arrival = tna, job_counters = jc\<rparr>"
  have ev: "events_step T st =
              Some \<lparr>current_time = net, processors = ps3, task_next_arrival = tna, job_counters = jc\<rparr>"
    using r unfolding ps2_def ps1_def dt_def c_def
    by (simp only: events_step_def net option.case Let_def prod.case)
  then have step: "sim_step T st = Some st'"
    by (simp add: sim_step_def st'_def)
  from res(5) have "list_all (proc_ok T net) (map dispatch ps3)"
    by (simp add: list_all_iff proc_ok_dispatch)
  with res len2 net_int net0 netT TN have "sim_inv T st'"
    by (simp add: sim_inv_def st'_def)
  moreover from arrival_times_strict [OF res(4)] have "list_all (\<lambda>a. net < a) (arrival_times st')"
    by (simp add: arrival_times_def st'_def)
  ultimately have "sim_inv_strict T st'"
    by (simp add: sim_inv_strict_def st'_def)
  with step ge netT strict_gap show ?thesis
    by (auto simp: st'_def ct_def)
qed

lemma dict_insert_zero:
  "list_all (\<lambda>(k, a). P k \<and> a = 0) d \<Longrightarrow> P t \<Longrightarrow>
   list_all (\<lambda>(k, a). P k \<and> a = 0) (dict_insert d t)"
  by (auto simp: dict_insert_def list_all_iff)

lemma init_arrivals_zero:
  "list_all P ts \<Longrightarrow> list_all (\<lambda>(k, a). P k \<and> a = 0) d \<Longrightarrow>
   list_all (\<lambda>(k, a). P k \<and> a = 0) (foldl dict_insert d ts)"
  by (induction ts arbitrary: d) (simp_all add: dict_insert_zero)

lemma arrivals_ok_init:
  assumes "list_all (task_ok T) ts" and "0 \<le> T"
  shows "arrivals_ok T 0 (init_arrivals ts)"
proof -
  from init_arrivals_zero [of "task_ok T" ts "[]"] assms(1)
  have z: "list_all (\<lambda>(k, a). task_ok T k \<and> a = 0) (init_arrivals ts)"
    by (simp add: init_arrivals_def)
  have "task_ok T k \<and> a \<in> \<int> \<and> 0 \<le> a \<and> a \<le> real_of_int (T + period k)"
    if "(k, a) \<in> set (init_arrivals ts)" for k a
  proof -
    from z that have k: "task_ok T k" and a: "a = 0" by (auto simp: list_all_iff)
    from task_ok_bounds(1) [OF k assms(2)] assms(2) have "0 \<le> real_of_int (T + period k)"
      by simp
    with k a show ?thesis by simp
  qed
  then show ?thesis by (auto simp: arrivals_ok_def list_all_iff)
qed

lemma sim_inv_init:
  assumes "valid_input ps" and "small_input T ps" and "0 \<le> T"
  shows "sim_inv T (init_state ps)"
proof -
  have "arrivals_ok T 0 (init_arrivals (assigned_tasks proc))" if "proc \<in> set ps" for proc
  proof -
    from that assms(1,2) have "list_all (task_ok T) (assigned_tasks proc)"
      by (auto simp: valid_input_def small_input_def task_ok_def list_all_iff)
    then show ?thesis using assms(3) by (rule arrivals_ok_init)
  qed
  moreover have "proc_ok T 0 proc" if "proc \<in> set ps" for proc
    using that assms(1)
    by (auto simp: valid_input_def list_all_iff proc_ok_def fresh_def jobs_of_def log_ok_def)
  moreover from assms(2) have "T \<le> 9007199254740992" by (simp add: small_input_def)
  ultimately show ?thesis
    using assms(3) by (simp add: sim_inv_def init_state_def list_all_iff)
qed

lemma reachable_inv:
  "reachable ps T st \<Longrightarrow> valid_input ps \<Longrightarrow> small_input T ps \<Longrightarrow> 0 \<le> T \<Longrightarrow> sim_inv T st"
proof (induction rule: reachable.induct)
  case (reach_init ps max_time)
  then show ?case by (intro sim_inv_init)
next
  case (reach_step ps max_time st st')
  then have "sim_inv max_time st" by simp
  from sim_step_inv [OF this reach_step.hyps(2)] reach_step.hyps(3)
  show ?case by (auto simp: sim_inv_strict_def)
qed

lemma strict_terminates:
  "sim_inv_strict T st \<Longrightarrow>
   \<exists>n st'. sim_steps n T st = Some st' \<and> \<not> current_time st' < real_of_int T"
proof (induction "nat \<lceil>real_of_int T - current_time st\<rceil>" arbitrary: st rule: less_induct)
  case less
  show ?case
  proof (cases "current_time st < real_of_int T")
    case False
    then have "sim_steps 0 T st = Some st \<and> \<not> current_time st < real_of_int T" by simp
    then show ?thesis by blast
  next
    case True
    from less.prems have "sim_inv T st" by (simp add: sim_inv_strict_def)
    from sim_step_inv [OF this True] less.prems obtain st1 where
      s1: "sim_step T st = Some st1" and inv1: "sim_inv_strict T st1"
      and gap: "current_time st + 1 \<le> current_time st1" by blast
    from gap have "\<lceil>real_of_int T - current_time st1\<rceil> \<le> \<lceil>real_of_int T - current_time st - 1\<rceil>"
      by (intro ceiling_mono) simp
    also have "\<dots> = \<lceil>real_of_int T - current_time st\<rceil> - 1" by simp
    finally have "\<lceil>real_of_int T - current_time st1\<rceil> < \<lceil>real_of_int T - current_time st\<rceil>"
      by simp
    moreover from True have "0 < \<lceil>real_of_int T - current_time st\<rceil>" by simp
    ultimately have "nat \<lceil>real_of_int T - current_time st1\<rceil> < nat \<lceil>real_of_int T - current_time st\<rceil>"
      by simp
    from less.hyps [OF this inv1] obtain n st' where
      "sim_steps n T st1 = Some st'" "\<not> current_time st' < real_of_int T" by blast
    with True s1 have "sim_steps (Suc n) T st = Some st' \<and> \<not> current_time st' < real_of_int T"
      by simp
    then show ?thesis by blast
  qed
qed

lemma valid_terminates:
  assumes "valid_input ps" and "small_input T ps"
  shows "\<exists>n st'. sim_steps n T (init_state ps) = Some st' \<and> \<not> current_time st' < real_of_int T"
proof (cases "current_time (init_state ps) < real_of_int T")
  case False
  then have "sim_steps 0 T (init_state ps) = Some (init_state ps) \<and>
             \<not> current_time (init_state ps) < real_of_int T" by simp
  then show ?thesis by blast
next
  case True
  then have "0 \<le> T" by (simp add: init_state_def)
  from sim_step_inv [OF sim_inv_init [OF assms this] True] obtain st1 where
    s1: "sim_step T (init_state ps) = Some st1" and inv1: "sim_inv_strict T st1" by blast
  from strict_terminates [OF inv1] obtain n st' where
    "sim_steps n T st1 = Some st'" "\<not> current_time st' < real_of_int T" by blast
  with True s1 have "sim_steps (Suc n) T (init_state ps) = Some st' \<and>
                     \<not> current_time st' < real_of_int T"
    by simp
  then show ?thesis by blast
qed

lemma run_simulation_returns:
  assumes "valid_input ps" and "small_input T ps"
  shows "\<exists>st'. reachable ps T st' \<and> \<not> current_time st' < real_of_int T \<and>
               run_simulation ps T = Some (processors st')"
proof -
  from valid_terminates [OF assms] obtain n st' where
    n: "sim_steps n T (init_state ps) = Some st'" and e: "\<not> current_time st' < real_of_int T"
    by blast
  from sim_steps_reachable [OF reach_init n] have "reachable ps T st'" .
  moreover from sim_steps_loop [OF n e] have "run_simulation ps T = Some (processors st')"
    by (simp add: run_simulation_def)
  ultimately show ?thesis using e by blast
qed

lemma log_ok_invariant:
  assumes "log_ok t entries"
  shows "log_invariant entries"
proof -
  from assms have pos: "\<forall>e\<in>set entries. fst e < fst (snd e)" and suc: "successively follows entries"
    by (simp_all add: log_ok_def list_all_iff)
  have s1: "successively (\<lambda>e1 e2. fst (snd e1) \<le> fst e2) entries"
    using suc by (rule successively_mono) (simp add: follows_def)
  have sw0: "sorted_wrt (\<lambda>e1 e2. fst (snd e1) \<le> fst e2) entries"
  proof (subst successively_iff_sorted_wrt_strong [symmetric])
    show "successively (\<lambda>e1 e2. fst (snd e1) \<le> fst e2) entries" by (rule s1)
    fix x y z
    assume "x \<in> set entries" "y \<in> set entries" "z \<in> set entries"
      "fst (snd x) \<le> fst y" "fst (snd y) \<le> fst z"
    with pos show "fst (snd x) \<le> fst z" by fastforce
  qed
  have "(\<lambda>(s1::real, e1::real, k1::string) (s2::real, e2::real, k2::string). e1 \<le> s2) =
                 (\<lambda>e1 e2. fst (snd e1) \<le> fst e2)"
    by (simp add: fun_eq_iff split_beta)
  with sw0 have sw: "sorted_wrt (\<lambda>(s1, e1, k1) (s2, e2, k2). e1 \<le> s2) entries"
    by simp
  from sw0 pos
  have "sorted_wrt (\<lambda>e1 e2. fst e1 \<le> fst e2) entries"
    by (induction entries) fastforce+
  then have so: "sorted (map fst entries)"
    by (simp add: sorted_map)
  have nm0: "successively (\<lambda>e1 e2. \<not> (fst (snd e1) = fst e2 \<and> snd (snd e1) = snd (snd e2))) entries"
    using suc by (rule successively_mono) (simp add: follows_def)
  have "(\<lambda>(s1::real, e1::real, k1::string) (s2::real, e2::real, k2::string).
                    \<not> (e1 = s2 \<and> k1 = k2)) =
                 (\<lambda>e1 e2. \<not> (fst (snd e1) = fst e2 \<and> snd (snd e1) = snd (snd e2)))"
    by (simp add: fun_eq_iff split_beta)
  with nm0 have nm: "successively (\<lambda>(s1, e1, k1) (s2, e2, k2). \<not> (e1 = s2 \<and> k1 = k2)) entries"
    by simp
  from pos have "list_all (\<lambda>(s, e, k). s < e) entries"
    by (simp add: list_all_iff case_prod_beta)
  with sw so nm show ?thesis by (simp add: log_invariant_def)
qed

lemma run_cpu_S: "run_simulation [cpu_S] 30 = Some [cpu_S_ran]"
  by (simp add: run_simulation_def sim_loop.simps sim_eval cpu_S_ran_def cpu_S_def task_S_def)

lemma rerun_cpu_S:
  "map_option (map execution_log) (run_simulation [cpu_S_ran] 30) =
     Some [[(0, 3, ''S''), (10, 13, ''S''), (20, 23, ''S''),
            (0, 6, ''S''), (10, 13, ''S''), (20, 23, ''S'')]]"
  by (simp add: run_simulation_def sim_loop.simps sim_eval cpu_S_ran_def cpu_S_def task_S_def)

text \<open>
  Claim C3, as stated: after \<open>run_simulation\<close> every processor's log is in order,
  whatever the processors were on entry. A processor keeps its log and its active job
  from one call to the next: the run of the specification's single-task scenario to
  horizon 30 leaves a job active and three entries logged, and a second run on the same
  processor appends the segments of the new run, which start at 0, behind them.
\<close>

theorem rerun_log_counterexample:
  "run_simulation [cpu_S] 30 = Some [cpu_S_ran] \<and>
   (\<exists>ps'. run_simulation [cpu_S_ran] 30 = Some ps' \<and>
      map execution_log ps' =
        [[(0, 3, ''S''), (10, 13, ''S''), (20, 23, ''S''),
          (0, 6, ''S''), (10, 13, ''S''), (20, 23, ''S'')]] \<and>
      \<not> list_all (\<lambda>proc. log_invariant (execution_log proc)) ps')"
proof -
  from rerun_cpu_S obtain ps' where
    run: "run_simulation [cpu_S_ran] 30 = Some ps'"
    and logs: "map execution_log ps' =
        [[(0, 3, ''S''), (10, 13, ''S''), (20, 23, ''S''),
          (0, 6, ''S''), (10, 13, ''S''), (20, 23, ''S'')]]"
    by auto
  from logs obtain proc where ps': "ps' = [proc]"
    and l: "execution_log proc =
        [(0, 3, ''S''), (10, 13, ''S''), (20, 23, ''S''),
         (0, 6, ''S''), (10, 13, ''S''), (20, 23, ''S'')]"
    by auto
  have "\<not> log_invariant (execution_log proc)"
    by (simp add: l log_invariant_def)
  with ps' have bad: "\<not> list_all (\<lambda>proc. log_invariant (execution_log proc)) ps'"
    by simp
  have ex: "\<exists>ps'. run_simulation [cpu_S_ran] 30 = Some ps' \<and>
      map execution_log ps' =
        [[(0, 3, ''S''), (10, 13, ''S''), (20, 23, ''S''),
          (0, 6, ''S''), (10, 13, ''S''), (20, 23, ''S'')]] \<and>
      \<not> list_all (\<lambda>proc. log_invariant (execution_log proc)) ps'"
    by (rule exI [of _ ps']) (simp only: run logs bad simp_thms)
  with run_cpu_S show ?thesis by (simp only: simp_thms)
qed

text \<open>
  Claim C3, amended: let the processors be distinct objects (their ids differ) that
  enter idle with nothing queued or logged, let every task have positive period and
  positive execution time, and let the horizon, the horizon plus any period and the
  horizon plus any execution time be at most \<open>2^53\<close>, the range where every time the
  simulation computes is a whole number that doubles hold exactly. Then
  \<open>run_simulation\<close> returns, and afterwards every processor's \<open>execution_log\<close> has
  entries with \<open>start_time < end_time\<close>, pairwise non-overlapping and sorted by start
  time, with no two consecutive entries contiguous for the same task id.
\<close>

theorem execution_log_invariant:
  assumes "valid_input ps" and "distinct (map id_Processor ps)" and "small_input T ps"
  shows "\<exists>ps'. run_simulation ps T = Some ps' \<and>
           list_all (\<lambda>proc. log_invariant (execution_log proc)) ps'"
proof (cases "0 \<le> T")
  case True
  from run_simulation_returns [OF assms(1,3)] obtain st' where
    r: "reachable ps T st'" and run: "run_simulation ps T = Some (processors st')" by blast
  from reachable_inv [OF r assms(1,3) True]
  have "list_all (proc_ok T (current_time st')) (processors st')"
    by (simp add: sim_inv_def)
  then have "list_all (\<lambda>proc. log_invariant (execution_log proc)) (processors st')"
    by (auto simp: list_all_iff proc_ok_def intro: log_ok_invariant)
  with run show ?thesis by blast
next
  case False
  then have run: "run_simulation ps T = Some ps"
    by (simp add: run_simulation_def sim_loop.simps init_state_def)
  from assms(1) have "list_all (\<lambda>proc. log_invariant (execution_log proc)) ps"
    by (auto simp: valid_input_def fresh_def list_all_iff log_invariant_def)
  with run show ?thesis by blast
qed

text \<open>The run of the specification's single-task scenario gives three busy segments.\<close>

theorem execution_log_invariant_witness:
  "valid_input [cpu_S] \<and> distinct (map id_Processor [cpu_S]) \<and> small_input 30 [cpu_S] \<and>
   (\<exists>ps'. run_simulation [cpu_S] 30 = Some ps' \<and>
      map execution_log ps' = [[(0, 3, ''S''), (10, 13, ''S''), (20, 23, ''S'')]] \<and>
      list_all (\<lambda>proc. log_invariant (execution_log proc)) ps')"
proof -
  have vi: "valid_input [cpu_S]"
    by (simp add: valid_input_def fresh_def valid_task_def cpu_S_def task_S_def
        add_task_def Processor_init_def)
  have di: "distinct (map id_Processor [cpu_S])" by simp
  have sm: "small_input 30 [cpu_S]"
    by (simp add: small_input_def small_task_def cpu_S_def task_S_def
        add_task_def Processor_init_def)
  have logs: "map execution_log [cpu_S_ran] = [[(0, 3, ''S''), (10, 13, ''S''), (20, 23, ''S'')]]"
    by (simp add: cpu_S_ran_def)
  from execution_log_invariant [OF vi di sm] run_cpu_S logs vi di sm show ?thesis
    by auto
qed

subsection \<open>Remaining time\<close>

text \<open>Beyond \<open>2^53\<close> the doubles are the even numbers, then the multiples of 4.\<close>

lemma fl_tie_even: "fl 9007199254740995 = 9007199254740996"
proof -
  have "fl 9007199254740995 =
          2 powr of_int (53 - 52) * of_int (round_half_even (9007199254740995 / 2 powr of_int (53 - 52)))"
    by (rule fl_binade) simp_all
  also have "\<dots> = 2 * of_int (round_half_even (9007199254740995 / 2))"
    by simp
  also have "round_half_even (9007199254740995 / 2) = 4503599627370498"
    by (simp add: round_half_even_def Let_def)
  finally show ?thesis by simp
qed

lemma fl_two_54: "fl 18014398509481984 = 18014398509481984"
proof -
  have "fl 18014398509481984 =
          2 powr of_int (54 - 52) * of_int (round_half_even (18014398509481984 / 2 powr of_int (54 - 52)))"
    by (rule fl_binade) simp_all
  also have "\<dots> = 4 * of_int (round_half_even (of_int 4503599627370496))"
    by simp
  finally show ?thesis by (simp only: round_half_even_of_int)
qed

lemma ready_queue_advance: "ready_queue (advance ct net dt proc) = ready_queue proc"
  by (simp add: advance_def split: option.splits)

lemma complete_positive:
  assumes "list_all (\<lambda>j. epsilon < remaining_time j) (ready_queue proc)"
  shows "list_all (\<lambda>j. epsilon < remaining_time j) (jobs_of (complete proc))"
  using assms by (auto simp: complete_def jobs_of_def split: option.splits)

lemma new_job_positive:
  assumes "valid_task t"
  shows "epsilon < remaining_time (new_job c t n ct)"
proof -
  from assms have "1 \<le> execution_time t" by (simp add: valid_task_def)
  then have "real_of_int 1 \<le> real_of_int (execution_time t)" by (simp only: of_int_le_iff)
  then have "1 \<le> fl (real_of_int (execution_time t))" by (intro fl_ge_one) simp
  with epsilon_bounds(2) show ?thesis by (simp add: new_job_def)
qed

lemma handle_arrivals_positive:
  assumes "handle_arrivals c ct d q jc = (d', q', jc')"
    and "list_all (\<lambda>(k, a). valid_task k) d"
    and "list_all (\<lambda>j. epsilon < remaining_time j) q"
  shows "list_all (\<lambda>(k, a). valid_task k) d' \<and> list_all (\<lambda>j. epsilon < remaining_time j) q'"
  using assms
proof (induction d arbitrary: q jc d' q' jc')
  case Nil
  then show ?case by simp
next
  case (Cons x d)
  obtain t a where x: "x = (t, a)" by (cases x)
  from Cons.prems(2) x have vt: "valid_task t" and rest: "list_all (\<lambda>(k, a). valid_task k) d"
    by simp_all
  show ?case
  proof (cases "\<bar>fl (a - as_float c ct)\<bar> < epsilon")
    case True
    obtain r1 r2 r3 where r: "handle_arrivals c ct d (q @ [new_job c t (counter jc (id_Task t)) ct])
        (jc(id_Task t \<mapsto> counter jc (id_Task t) + 1)) = (r1, r2, r3)"
      by (cases "handle_arrivals c ct d (q @ [new_job c t (counter jc (id_Task t)) ct])
        (jc(id_Task t \<mapsto> counter jc (id_Task t) + 1))")
    from Cons.prems(3) new_job_positive [OF vt]
    have "list_all (\<lambda>j. epsilon < remaining_time j)
            (q @ [new_job c t (counter jc (id_Task t)) ct])"
      by simp
    from Cons.IH [OF r rest this]
    have ih: "list_all (\<lambda>(k, a). valid_task k) r1" "list_all (\<lambda>j. epsilon < remaining_time j) r2"
      by simp_all
    from Cons.prems(1) x True r
    have "d' = (t, fl (a + fl (real_of_int (period t)))) # r1" "q' = r2" by simp_all
    with ih vt show ?thesis by simp
  next
    case False
    obtain r1 r2 r3 where r: "handle_arrivals c ct d q jc = (r1, r2, r3)"
      by (cases "handle_arrivals c ct d q jc")
    from Cons.IH [OF r rest Cons.prems(3)]
    have ih: "list_all (\<lambda>(k, a). valid_task k) r1" "list_all (\<lambda>j. epsilon < remaining_time j) r2"
      by simp_all
    from Cons.prems(1) x False r have "d' = (t, a) # r1" "q' = r2" by simp_all
    with ih vt show ?thesis by simp
  qed
qed

lemma arrivals_all_positive:
  assumes "arrivals_all c ct ps ds jc = (ps', ds', jc')"
    and "list_all (list_all (\<lambda>(k, a). valid_task k)) ds"
    and "list_all (\<lambda>proc. list_all (\<lambda>j. epsilon < remaining_time j) (jobs_of proc)) ps"
  shows "list_all (list_all (\<lambda>(k, a). valid_task k)) ds' \<and>
         list_all (\<lambda>proc. list_all (\<lambda>j. epsilon < remaining_time j) (jobs_of proc)) ps'"
  using assms
proof (induction c ct ps ds jc arbitrary: ps' ds' jc' rule: arrivals_all.induct)
  case (1 c ct proc ps d ds jc)
  obtain d1 q1 jc1 where h: "handle_arrivals c ct d (ready_queue proc) jc = (d1, q1, jc1)"
    by (cases "handle_arrivals c ct d (ready_queue proc) jc")
  obtain ps2 ds2 jc2 where r: "arrivals_all c ct ps ds jc1 = (ps2, ds2, jc2)"
    by (cases "arrivals_all c ct ps ds jc1")
  from "1.prems"(2) have d: "list_all (\<lambda>(k, a). valid_task k) d"
    and ds: "list_all (list_all (\<lambda>(k, a). valid_task k)) ds" by simp_all
  from "1.prems"(3) have p: "list_all (\<lambda>j. epsilon < remaining_time j) (jobs_of proc)"
    and ps: "list_all (\<lambda>proc. list_all (\<lambda>j. epsilon < remaining_time j) (jobs_of proc)) ps"
    by simp_all
  from p have q: "list_all (\<lambda>j. epsilon < remaining_time j) (ready_queue proc)"
    by (simp add: jobs_of_def)
  from handle_arrivals_positive [OF h d q]
  have h': "list_all (\<lambda>(k, a). valid_task k) d1" "list_all (\<lambda>j. epsilon < remaining_time j) q1"
    by simp_all
  have "(d1, q1, jc1) = handle_arrivals c ct d (ready_queue proc) jc" using h by simp
  from "1.IH" [OF this refl r ds ps]
  have ih: "list_all (list_all (\<lambda>(k, a). valid_task k)) ds2"
    "list_all (\<lambda>proc. list_all (\<lambda>j. epsilon < remaining_time j) (jobs_of proc)) ps2"
    by simp_all
  from "1.prems"(1) h r have res: "ps' = proc\<lparr>ready_queue := q1\<rparr> # ps2" "ds' = d1 # ds2"
    by simp_all
  from p h' have "list_all (\<lambda>j. epsilon < remaining_time j) (jobs_of (proc\<lparr>ready_queue := q1\<rparr>))"
    by (simp add: jobs_of_def)
  with res ih h' show ?case by simp
qed simp_all

lemma sim_step_positive:
  assumes "jobs_positive st" and "sim_step T st = Some st'"
  shows "jobs_positive st'"
proof -
  from assms(2) obtain ev where ev: "events_step T st = Some ev"
    and st': "st' = ev\<lparr>processors := map dispatch (processors ev)\<rparr>"
    by (auto simp: sim_step_def split: option.splits)
  from ev obtain net where net: "next_event_time T st = Some net"
    by (auto simp: events_step_def split: option.splits)
  define c where "c = capped T st"
  define dt where "dt = fl (as_float c net - current_time st)"
  define ps1 where "ps1 = (if dt > 0
                           then map (advance (current_time st) net dt) (processors st)
                           else processors st)"
  define ps2 where "ps2 = map complete ps1"
  obtain ps3 tna jc where
    r: "arrivals_all c net ps2 (task_next_arrival st) (job_counters st) = (ps3, tna, jc)"
    by (cases "arrivals_all c net ps2 (task_next_arrival st) (job_counters st)")
  have "events_step T st =
          Some \<lparr>current_time = net, processors = ps3, task_next_arrival = tna, job_counters = jc\<rparr>"
    using r unfolding ps2_def ps1_def dt_def c_def
    by (simp only: events_step_def net option.case Let_def prod.case)
  with ev have ev_val:
    "ev = \<lparr>current_time = net, processors = ps3, task_next_arrival = tna, job_counters = jc\<rparr>"
    by simp
  from assms(1) have keys: "list_all (list_all (\<lambda>(k, a). valid_task k)) (task_next_arrival st)"
    and jobs: "list_all (\<lambda>proc. list_all (\<lambda>j. epsilon < remaining_time j) (jobs_of proc))
                 (processors st)"
    by (simp_all add: jobs_positive_def)
  have q1: "list_all (\<lambda>j. epsilon < remaining_time j) (ready_queue proc)"
    if "proc \<in> set ps1" for proc
  proof -
    from that obtain p0 where p0: "p0 \<in> set (processors st)"
      and q: "ready_queue proc = ready_queue p0"
      by (auto simp: ps1_def ready_queue_advance split: if_splits)
    from jobs p0 have "list_all (\<lambda>j. epsilon < remaining_time j) (jobs_of p0)"
      by (simp add: list_all_iff)
    with q show ?thesis by (simp add: jobs_of_def)
  qed
  have "list_all (\<lambda>j. epsilon < remaining_time j) (jobs_of (complete proc))"
    if "proc \<in> set ps1" for proc
    using q1 [OF that] by (rule complete_positive)
  then have "list_all (\<lambda>proc. list_all (\<lambda>j. epsilon < remaining_time j) (jobs_of proc)) ps2"
    by (simp add: ps2_def list_all_iff)
  from arrivals_all_positive [OF r keys this]
  have res: "list_all (list_all (\<lambda>(k, a). valid_task k)) tna"
    "list_all (\<lambda>proc. list_all (\<lambda>j. epsilon < remaining_time j) (jobs_of proc)) ps3"
    by simp_all
  from res(2)
  have "list_all (\<lambda>proc. list_all (\<lambda>j. epsilon < remaining_time j) (jobs_of proc))
          (map dispatch ps3)"
    by (simp add: list_all_iff jobs_of_dispatch)
  with res(1) show ?thesis by (simp add: jobs_positive_def st' ev_val)
qed

lemma dict_insert_keys:
  "list_all (\<lambda>(k, a). P k) d \<Longrightarrow> P t \<Longrightarrow> list_all (\<lambda>(k, a). P k) (dict_insert d t)"
  by (auto simp: dict_insert_def list_all_iff split: if_splits)

lemma init_arrivals_keys:
  "list_all P ts \<Longrightarrow> list_all (\<lambda>(k, a). P k) d \<Longrightarrow>
   list_all (\<lambda>(k, a). P k) (foldl dict_insert d ts)"
  by (induction ts arbitrary: d) (simp_all add: dict_insert_keys)

lemma init_positive: "valid_input ps \<Longrightarrow> jobs_positive (init_state ps)"
proof -
  assume v: "valid_input ps"
  have "list_all (\<lambda>(k, a). valid_task k) (init_arrivals (assigned_tasks proc))"
    if "proc \<in> set ps" for proc
  proof -
    from that v have "list_all valid_task (assigned_tasks proc)"
      by (simp add: valid_input_def list_all_iff)
    from init_arrivals_keys [OF this, of "[]"] show ?thesis by (simp add: init_arrivals_def)
  qed
  moreover have "list_all (\<lambda>j. epsilon < remaining_time j) (jobs_of proc)"
    if "proc \<in> set ps" for proc
    using that v by (simp add: valid_input_def list_all_iff fresh_def jobs_of_def)
  ultimately show ?thesis
    by (simp add: jobs_positive_def init_state_def list_all_iff)
qed

lemma reachable_positive: "reachable ps T st \<Longrightarrow> valid_input ps \<Longrightarrow> jobs_positive st"
proof (induction rule: reachable.induct)
  case (reach_init ps max_time)
  then show ?case by (rule init_positive)
next
  case (reach_step ps max_time st st')
  then have "jobs_positive st" by simp
  then show ?case using reach_step.hyps(3) by (rule sim_step_positive)
qed

lemmas big_eval = cpu_D_def task_D_def eval_nat_numeral fl_tie_even fl_two_54

text \<open>
  Claim C4, as stated: a decrement that would drive a remaining time below zero is
  clamped to zero and a warning is logged. The code decrements unconditionally. With
  one task of period \<open>2^53\<close> and execution time 3 and horizon \<open>2^54\<close>, the second job
  starts at time \<open>2^53\<close> with remaining time 3; its completion time \<open>2^53 + 3\<close> is not a
  double and rounds to \<open>2^53 + 4\<close>, which becomes the next event time; the step is 4
  and the decrement leaves the remaining time -1.
\<close>

theorem unclamped_decrement_counterexample:
  "valid_input [cpu_D] \<and>
   (\<exists>st net. reachable [cpu_D] 18014398509481984 st \<and>
      current_time st = 9007199254740992 \<and>
      map (\<lambda>proc. map_option remaining_time (active_job proc)) (processors st) = [Some 3] \<and>
      \<not> capped 18014398509481984 st \<and>
      next_event_time 18014398509481984 st = Some net \<and> net = 9007199254740996 \<and>
      fl (net - current_time st) = 4 \<and>
      map (\<lambda>proc. map_option remaining_time (active_job proc))
          (map (advance (current_time st) net (fl (net - current_time st))) (processors st)) =
        [Some (- 1)])"
proof -
  define st where "st = the (sim_steps 3 18014398509481984 (init_state [cpu_D]))"
  have vi: "valid_input [cpu_D]"
    by (simp add: valid_input_def fresh_def valid_task_def cpu_D_def task_D_def
        add_task_def Processor_init_def)
  have st: "sim_steps 3 18014398509481984 (init_state [cpu_D]) = Some st"
    by (simp add: st_def sim_eval big_eval)
  from sim_steps_reachable [OF reach_init st]
  have r: "reachable [cpu_D] 18014398509481984 st" .
  have v: "current_time st = 9007199254740992"
    "map (\<lambda>proc. map_option remaining_time (active_job proc)) (processors st) = [Some 3]"
    "\<not> capped 18014398509481984 st"
    "next_event_time 18014398509481984 st = Some 9007199254740996"
    by (simp_all add: st_def sim_eval big_eval)
  have d: "fl (9007199254740996 - 9007199254740992) = 4"
    by (simp add: fl_eval)
  have a: "map (\<lambda>proc. map_option remaining_time (active_job proc))
          (map (advance 9007199254740992 9007199254740996 4) (processors st)) =
        [Some (- 1)]"
    by (simp add: st_def sim_eval big_eval)
  have "\<exists>st net. reachable [cpu_D] 18014398509481984 st \<and>
      current_time st = 9007199254740992 \<and>
      map (\<lambda>proc. map_option remaining_time (active_job proc)) (processors st) = [Some 3] \<and>
      \<not> capped 18014398509481984 st \<and>
      next_event_time 18014398509481984 st = Some net \<and> net = 9007199254740996 \<and>
      fl (net - current_time st) = 4 \<and>
      map (\<lambda>proc. map_option remaining_time (active_job proc))
          (map (advance (current_time st) net (fl (net - current_time st))) (processors st)) =
        [Some (- 1)]"
    by (rule exI [of _ st], rule exI [of _ 9007199254740996])
       (simp only: r v d a simp_thms)
  with vi show ?thesis by (simp only: simp_thms)
qed

text \<open>
  Claim C4, amended: the code has no clamp and logs no warning; a decrement can leave a
  negative remaining time, and the completion test of the same iteration then drops
  the job. For distinct processors that enter idle with nothing queued or logged and
  whose tasks have positive period and positive execution time, at the head of every
  iteration, where the next event time is computed from the remaining times, every job
  a processor holds (active or queued) has a remaining time above the tolerance
  \<open>1e-9\<close>, hence non-negative. Of the arithmetic this uses only that the float of a
  positive int is at least 1, so it does not depend on how the other operations round.
\<close>

theorem remaining_time_positive:
  assumes "valid_input ps" and "distinct (map id_Processor ps)" and "reachable ps T st"
  shows "list_all (\<lambda>proc. list_all (\<lambda>j. 0 \<le> remaining_time j \<and> epsilon < remaining_time j)
                             (jobs_of proc))
           (processors st)"
proof -
  from reachable_positive [OF assms(3,1)]
  have "list_all (\<lambda>proc. list_all (\<lambda>j. epsilon < remaining_time j) (jobs_of proc))
          (processors st)"
    by (simp add: jobs_positive_def)
  moreover have "0 \<le> remaining_time j" if "epsilon < remaining_time j" for j
    using that epsilon_bounds(1) by simp
  ultimately show ?thesis by (auto simp: list_all_iff)
qed

theorem remaining_time_positive_witness:
  "\<exists>st. valid_input [cpu_AB] \<and> distinct (map id_Processor [cpu_AB]) \<and>
      reachable [cpu_AB] 4 st \<and> current_time st < 4 \<and>
      map (\<lambda>proc. map remaining_time (jobs_of proc)) (processors st) = [[1, 4]] \<and>
      list_all (\<lambda>proc. list_all (\<lambda>j. 0 \<le> remaining_time j \<and> epsilon < remaining_time j)
                          (jobs_of proc))
        (processors st)"
proof -
  define st where "st = the (sim_steps 1 4 (init_state [cpu_AB]))"
  have st: "sim_steps 1 4 (init_state [cpu_AB]) = Some st"
    by (simp add: st_def sim_eval ex_eval)
  from sim_steps_reachable [OF reach_init st] have r: "reachable [cpu_AB] 4 st" .
  have vi: "valid_input [cpu_AB]"
    by (simp add: valid_input_def fresh_def valid_task_def sim_eval ex_eval)
  have di: "distinct (map id_Processor [cpu_AB])" by simp
  have v: "current_time st < 4"
    "map (\<lambda>proc. map remaining_time (jobs_of proc)) (processors st) = [[1, 4]]"
    by (simp_all add: st_def jobs_of_def sim_eval ex_eval)
  from remaining_time_positive [OF vi di r]
  have "list_all (\<lambda>proc. list_all (\<lambda>j. 0 \<le> remaining_time j \<and> epsilon < remaining_time j)
                          (jobs_of proc))
        (processors st)" .
  with vi di r v show ?thesis
    by (intro exI [of _ st]) (simp only: simp_thms)
qed

end
